theory Spec2Isabelle
  imports Main
begin

section \<open>The two caches of src/common/users.tsx\<close>

text \<open>
  The source is asynchronous TypeScript on a single-threaded event loop. A call of
  \<^verbatim>\<open>get\<close> runs to its \<^verbatim>\<open>return\<close> without interruption (its body has no
  \<^verbatim>\<open>await\<close>); the callbacks given to \<^verbatim>\<open>then\<close> and \<^verbatim>\<open>finally\<close> run
  later, each on its own turn of the job queue, and other jobs may run between them.
  Each class is modelled as a state machine: the state holds the fields of the object
  and the promises its methods created; an event is one uninterrupted piece of the
  source (a call of a method up to its \<^verbatim>\<open>return\<close> or \<^verbatim>\<open>await\<close>, a
  \<^verbatim>\<open>then\<close> callback, a rejection, a \<^verbatim>\<open>finally\<close> callback). Theorems quantify
  over every sequence of events, so they hold for every schedule of the job queue.

  Timestamps are integer milliseconds (what \<^verbatim>\<open>Date.now()\<close> returns); the only
  other number the source compares with them is \<^verbatim>\<open>Infinity\<close>. Every call of
  \<^verbatim>\<open>Date.now()\<close> is a parameter of the step that makes it, so nothing is assumed
  about the clock.

  What the source leaves to its collaborators enters as events: the loader given to
  \<^verbatim>\<open>new Users\<close>, \<^verbatim>\<open>getToken\<close> and the four methods of the network client
  return promises, and how and when these settle is arbitrary. The logging calls touch
  no state and are left out: the branch at the head of \<^verbatim>\<open>get\<close> is taken only when
  the debug channel is enabled (the model is the code with the channel disabled), and
  the \<^verbatim>\<open>else\<close> branch of \<^verbatim>\<open>update\<close> only logs.
\<close>

type_synonym token = string

type_synonym pid = nat

datatype jsnumber = Millis int | Infinity

text \<open>\<^verbatim>\<open>a >= b\<close>, \<^verbatim>\<open>a > b\<close> and \<^verbatim>\<open>a < b\<close> of JavaScript, for a number \<open>a\<close> that may be
  \<^verbatim>\<open>Infinity\<close> and a timestamp \<open>b\<close>.\<close>

fun num_ge :: "jsnumber \<Rightarrow> int \<Rightarrow> bool" where
  "num_ge (Millis a) b = (a \<ge> b)"
| "num_ge Infinity b = True"

fun num_gt :: "jsnumber \<Rightarrow> int \<Rightarrow> bool" where
  "num_gt (Millis a) b = (a > b)"
| "num_gt Infinity b = True"

fun num_lt :: "jsnumber \<Rightarrow> int \<Rightarrow> bool" where
  "num_lt (Millis a) b = (a < b)"
| "num_lt Infinity b = False"

text \<open>\<^verbatim>\<open>interface UserData { created_at: number; expires_at: number }\<close>. The type
  parameter \<^verbatim>\<open>T extends UserData\<close> of the class is an extension of this record.\<close>

record UserData =
  created_at :: jsnumber
  expires_at :: jsnumber

section \<open>The session object: class CoralUser\<close>

text \<open>
  \<^verbatim>\<open>keyof CoralUser['updated']\<close>: the four names \<^verbatim>\<open>'announcements'\<close>,
  \<^verbatim>\<open>'friends'\<close>, \<^verbatim>\<open>'webservices'\<close> and \<^verbatim>\<open>'active_event'\<close>.
\<close>

datatype key = announcements_key | friends_key | webservices_key | active_event_key

text \<open>
  The response types come from \<^verbatim>\<open>api/znc-types.js\<close>, which is not part of the
  sources at hand. The getters read \<^verbatim>\<open>result\<close> of a response and, for the friend
  list, \<^verbatim>\<open>friends\<close> of that result; the payloads are type parameters.
\<close>

record 'r ZncSuccessResponse =
  result :: 'r

record 'f Friends =
  friends :: 'f

text \<open>What the four requests of the network client resolve with:
  \<^verbatim>\<open>getAnnouncements\<close>, \<^verbatim>\<open>getFriendList\<close>, \<^verbatim>\<open>getWebServices\<close>,
  \<^verbatim>\<open>getActiveEvent\<close>.\<close>

datatype ('a, 'f, 'w, 'v) response =
  AnnouncementsResponse "'a ZncSuccessResponse"
| FriendListResponse "'f Friends ZncSuccessResponse"
| WebServicesResponse "'w ZncSuccessResponse"
| ActiveEventResponse "'v ZncSuccessResponse"

text \<open>The fields of the class (lines 78 to 97). \<open>updated\<close> is the object with one
  timestamp per key; \<open>promise\<close> is the map from key to pending promise.\<close>

record ('n, 'd, 'a, 'f, 'w, 'v) CoralUser = UserData +
  nso :: 'n
  data :: 'd
  announcements :: "'a ZncSuccessResponse"
  friends :: "'f Friends ZncSuccessResponse"
  webservices :: "'w ZncSuccessResponse"
  active_event :: "'v ZncSuccessResponse"
  promise :: "key \<rightharpoonup> pid"
  updated :: "key \<Rightarrow> int"

text \<open>
  The constructor. The field initialisers read the clock five times, once for
  \<open>created_at\<close> and once for each key of \<open>updated\<close>: \<open>t_created\<close> and \<open>t_updated\<close>
  are these readings.
\<close>

definition CoralUser_new ::
  "int \<Rightarrow> (key \<Rightarrow> int) \<Rightarrow> 'n \<Rightarrow> 'd \<Rightarrow> 'a ZncSuccessResponse \<Rightarrow>
   'f Friends ZncSuccessResponse \<Rightarrow> 'w ZncSuccessResponse \<Rightarrow> 'v ZncSuccessResponse \<Rightarrow>
   ('n, 'd, 'a, 'f, 'w, 'v) CoralUser" where
  "CoralUser_new t_created t_updated nso' data' announcements' friends' webservices' active_event' =
     \<lparr>created_at = Millis t_created, expires_at = Infinity,
      nso = nso', data = data',
      announcements = announcements', friends = friends',
      webservices = webservices', active_event = active_event',
      promise = Map.empty, updated = t_updated\<rparr>"

text \<open>
  The promise \<^verbatim>\<open>callback().then(...).finally(...)\<close> that \<open>update\<close> creates passes
  through these phases, one job of the queue each:
  \<^item> \<open>Fetching\<close>: the callback is suspended at its \<^verbatim>\<open>await\<close>, the request is under way;
  \<^item> \<open>Assigned\<close>: the request resolved and the callback assigned the field;
  \<^item> \<open>Stamped\<close>: the \<^verbatim>\<open>then\<close> callback set \<open>updated[key]\<close>;
  \<^item> \<open>Failed e\<close>: the request rejected with \<open>e\<close>; nothing is assigned and the
    \<^verbatim>\<open>then\<close> callback is skipped;
  \<^item> \<open>Finished r\<close>: the \<^verbatim>\<open>finally\<close> callback has run and the promise has settled,
    fulfilled (\<open>None\<close>) or rejected with \<open>e\<close> (\<open>Some e\<close>).
\<close>

datatype 'e refresh = Fetching | Assigned | Stamped | Failed 'e | Finished "'e option"

text \<open>
  A session is the object together with the promises its \<open>update\<close> created
  (\<open>refreshes\<close>, by identifier, each with the key it was registered under and the
  callback it runs) and the log of the requests the callbacks sent (\<open>requests\<close>). A
  callback is named by the key of the field it fetches and assigns: the source has
  exactly four, one in each getter. The identifier of a promise is the position of its
  request in the log.
\<close>

type_synonym callback = key

record ('n, 'd, 'a, 'f, 'w, 'v, 'e) session = "('n, 'd, 'a, 'f, 'w, 'v) CoralUser" +
  refreshes :: "pid \<rightharpoonup> key \<times> callback \<times> 'e refresh"
  requests :: "callback list"

definition session_of ::
  "('n, 'd, 'a, 'f, 'w, 'v) CoralUser \<Rightarrow> ('n, 'd, 'a, 'f, 'w, 'v, 'e) session" where
  "session_of u = CoralUser.extend u \<lparr>refreshes = Map.empty, requests = []\<rparr>"

datatype update_result = NotUpdating | Awaiting pid

text \<open>Lines 99 to 113, up to the \<^verbatim>\<open>await\<close>. Calling the callback sends its request.\<close>

definition update ::
  "key \<Rightarrow> callback \<Rightarrow> int \<Rightarrow> int \<Rightarrow> ('n, 'd, 'a, 'f, 'w, 'v, 'e) session \<Rightarrow>
   update_result \<times> ('n, 'd, 'a, 'f, 'w, 'v, 'e) session" where
  "update k cb ttl now s =
     (if updated s k + ttl < now then
        (case promise s k of
           Some p \<Rightarrow> (Awaiting p, s\<lparr>promise := (promise s)(k \<mapsto> p)\<rparr>)
         | None \<Rightarrow>
             (let p = length (requests s) in
              (Awaiting p,
               s\<lparr>requests := requests s @ [cb],
                 refreshes := (refreshes s)(p \<mapsto> (k, cb, Fetching)),
                 promise := (promise s)(k \<mapsto> p)\<rparr>)))
      else (NotUpdating, s))"

text \<open>The four getters (lines 115 to 145), up to their \<^verbatim>\<open>await\<close>.\<close>

definition getAnnouncements ::
  "int \<Rightarrow> ('n, 'd, 'a, 'f, 'w, 'v, 'e) session \<Rightarrow>
   update_result \<times> ('n, 'd, 'a, 'f, 'w, 'v, 'e) session" where
  "getAnnouncements now s = update announcements_key announcements_key (30 * 60 * 1000) now s"

definition getFriends ::
  "int \<Rightarrow> ('n, 'd, 'a, 'f, 'w, 'v, 'e) session \<Rightarrow>
   update_result \<times> ('n, 'd, 'a, 'f, 'w, 'v, 'e) session" where
  "getFriends now s = update friends_key friends_key (10 * 1000) now s"

definition getWebServices ::
  "int \<Rightarrow> ('n, 'd, 'a, 'f, 'w, 'v, 'e) session \<Rightarrow>
   update_result \<times> ('n, 'd, 'a, 'f, 'w, 'v, 'e) session" where
  "getWebServices now s = update webservices_key webservices_key (10 * 1000) now s"

definition getActiveEvent ::
  "int \<Rightarrow> ('n, 'd, 'a, 'f, 'w, 'v, 'e) session \<Rightarrow>
   update_result \<times> ('n, 'd, 'a, 'f, 'w, 'v, 'e) session" where
  "getActiveEvent now s = update active_event_key active_event_key (10 * 1000) now s"

text \<open>What each getter returns once its \<^verbatim>\<open>await\<close> has resumed without an error, read
  from the session as it is then.\<close>

definition getAnnouncements_value :: "('n, 'd, 'a, 'f, 'w, 'v, 'e) session \<Rightarrow> 'a" where
  "getAnnouncements_value s = result (announcements s)"

definition getFriends_value :: "('n, 'd, 'a, 'f, 'w, 'v, 'e) session \<Rightarrow> 'f" where
  "getFriends_value s = Friends.friends (result (friends s))"

definition getWebServices_value :: "('n, 'd, 'a, 'f, 'w, 'v, 'e) session \<Rightarrow> 'w" where
  "getWebServices_value s = result (webservices s)"

definition getActiveEvent_value :: "('n, 'd, 'a, 'f, 'w, 'v, 'e) session \<Rightarrow> 'v" where
  "getActiveEvent_value s = result (active_event s)"

text \<open>The getter of a key, and the time to live it passes to \<open>update\<close>.\<close>

fun getter ::
  "key \<Rightarrow> int \<Rightarrow> ('n, 'd, 'a, 'f, 'w, 'v, 'e) session \<Rightarrow>
   update_result \<times> ('n, 'd, 'a, 'f, 'w, 'v, 'e) session" where
  "getter announcements_key now s = getAnnouncements now s"
| "getter friends_key now s = getFriends now s"
| "getter webservices_key now s = getWebServices now s"
| "getter active_event_key now s = getActiveEvent now s"

fun ttl_of :: "key \<Rightarrow> int" where
  "ttl_of announcements_key = 30 * 60 * 1000"
| "ttl_of friends_key = 10 * 1000"
| "ttl_of webservices_key = 10 * 1000"
| "ttl_of active_event_key = 10 * 1000"

text \<open>The request a response answers, the assignment each callback makes with it
  (lines 117, 125, 133, 141), and the raw value stored for a key.\<close>

fun answers :: "('a, 'f, 'w, 'v) response \<Rightarrow> callback" where
  "answers (AnnouncementsResponse x) = announcements_key"
| "answers (FriendListResponse x) = friends_key"
| "answers (WebServicesResponse x) = webservices_key"
| "answers (ActiveEventResponse x) = active_event_key"

fun assign ::
  "('a, 'f, 'w, 'v) response \<Rightarrow> ('n, 'd, 'a, 'f, 'w, 'v, 'e) session \<Rightarrow>
   ('n, 'd, 'a, 'f, 'w, 'v, 'e) session" where
  "assign (AnnouncementsResponse x) s = s\<lparr>announcements := x\<rparr>"
| "assign (FriendListResponse x) s = s\<lparr>friends := x\<rparr>"
| "assign (WebServicesResponse x) s = s\<lparr>webservices := x\<rparr>"
| "assign (ActiveEventResponse x) s = s\<lparr>active_event := x\<rparr>"

fun stored ::
  "key \<Rightarrow> ('n, 'd, 'a, 'f, 'w, 'v, 'e) session \<Rightarrow> ('a, 'f, 'w, 'v) response" where
  "stored announcements_key s = AnnouncementsResponse (announcements s)"
| "stored friends_key s = FriendListResponse (friends s)"
| "stored webservices_key s = WebServicesResponse (webservices s)"
| "stored active_event_key s = ActiveEventResponse (active_event s)"

text \<open>The callback of promise \<open>p\<close> resumes with the response of its request and assigns
  its field. A promise settles once: nothing happens unless \<open>p\<close> is \<open>Fetching\<close>.\<close>

definition callback_resumes ::
  "pid \<Rightarrow> ('a, 'f, 'w, 'v) response \<Rightarrow> ('n, 'd, 'a, 'f, 'w, 'v, 'e) session \<Rightarrow>
   ('n, 'd, 'a, 'f, 'w, 'v, 'e) session" where
  "callback_resumes p r s =
     (case refreshes s p of
        Some (k, cb, Fetching) \<Rightarrow>
          if answers r = cb
          then (assign r s)\<lparr>refreshes := (refreshes s)(p \<mapsto> (k, cb, Assigned))\<rparr>
          else s
      | _ \<Rightarrow> s)"

text \<open>The request of promise \<open>p\<close> rejects with \<open>e\<close>: the callback throws at its
  \<^verbatim>\<open>await\<close>, before the assignment.\<close>

definition callback_throws ::
  "pid \<Rightarrow> 'e \<Rightarrow> ('n, 'd, 'a, 'f, 'w, 'v, 'e) session \<Rightarrow> ('n, 'd, 'a, 'f, 'w, 'v, 'e) session" where
  "callback_throws p e s =
     (case refreshes s p of
        Some (k, cb, Fetching) \<Rightarrow> s\<lparr>refreshes := (refreshes s)(p \<mapsto> (k, cb, Failed e))\<rparr>
      | _ \<Rightarrow> s)"

text \<open>Lines 101 to 103, the \<^verbatim>\<open>then\<close> callback: \<^verbatim>\<open>this.updated[key] = Date.now()\<close>.\<close>

definition update_then_cb ::
  "pid \<Rightarrow> int \<Rightarrow> ('n, 'd, 'a, 'f, 'w, 'v, 'e) session \<Rightarrow> ('n, 'd, 'a, 'f, 'w, 'v, 'e) session" where
  "update_then_cb p now s =
     (case refreshes s p of
        Some (k, cb, Assigned) \<Rightarrow>
          s\<lparr>updated := (updated s)(k := now),
            refreshes := (refreshes s)(p \<mapsto> (k, cb, Stamped))\<rparr>
      | _ \<Rightarrow> s)"

text \<open>Lines 103 to 105, the \<^verbatim>\<open>finally\<close> callback: \<^verbatim>\<open>this.promise.delete(key)\<close>; the
  promise then settles.\<close>

definition update_finally_cb ::
  "pid \<Rightarrow> ('n, 'd, 'a, 'f, 'w, 'v, 'e) session \<Rightarrow> ('n, 'd, 'a, 'f, 'w, 'v, 'e) session" where
  "update_finally_cb p s =
     (case refreshes s p of
        Some (k, cb, Stamped) \<Rightarrow>
          s\<lparr>promise := (promise s)(k := None),
            refreshes := (refreshes s)(p \<mapsto> (k, cb, Finished None))\<rparr>
      | Some (k, cb, Failed e) \<Rightarrow>
          s\<lparr>promise := (promise s)(k := None),
            refreshes := (refreshes s)(p \<mapsto> (k, cb, Finished (Some e)))\<rparr>
      | _ \<Rightarrow> s)"

datatype ('a, 'f, 'w, 'v, 'e) session_event =
  Getter key int
| Response pid "('a, 'f, 'w, 'v) response"
| Failure pid 'e
| Then pid int
| Cleanup pid

fun session_step ::
  "('a, 'f, 'w, 'v, 'e) session_event \<Rightarrow> ('n, 'd, 'a, 'f, 'w, 'v, 'e) session \<Rightarrow>
   ('n, 'd, 'a, 'f, 'w, 'v, 'e) session" where
  "session_step (Getter k now) s = snd (getter k now s)"
| "session_step (Response p r) s = callback_resumes p r s"
| "session_step (Failure p e) s = callback_throws p e s"
| "session_step (Then p now) s = update_then_cb p now s"
| "session_step (Cleanup p) s = update_finally_cb p s"

fun session_run ::
  "('a, 'f, 'w, 'v, 'e) session_event list \<Rightarrow> ('n, 'd, 'a, 'f, 'w, 'v, 'e) session \<Rightarrow>
   ('n, 'd, 'a, 'f, 'w, 'v, 'e) session" where
  "session_run [] s = s"
| "session_run (ev # evs) s = session_run evs (session_step ev s)"

subsection \<open>Notions the claims about the session object are stated with\<close>

text \<open>A refresh is pending until its \<^verbatim>\<open>finally\<close> callback has run.\<close>

fun pending :: "'e refresh \<Rightarrow> bool" where
  "pending (Finished r) = False"
| "pending ph = True"

definition refreshing :: "('n, 'd, 'a, 'f, 'w, 'v, 'e) session \<Rightarrow> pid \<Rightarrow> key \<Rightarrow> bool" where
  "refreshing s p k =
     (case refreshes s p of Some (k', cb, ph) \<Rightarrow> k' = k \<and> pending ph | None \<Rightarrow> False)"

text \<open>Concurrent callers of one getter: calls made one after the other, at the times
  \<open>nows\<close>, with nothing else happening between them.\<close>

fun getter_all ::
  "key \<Rightarrow> int list \<Rightarrow> ('n, 'd, 'a, 'f, 'w, 'v, 'e) session \<Rightarrow>
   update_result list \<times> ('n, 'd, 'a, 'f, 'w, 'v, 'e) session" where
  "getter_all k [] s = ([], s)"
| "getter_all k (now # nows) s =
     (case getter k now s of (r, s') \<Rightarrow>
        (case getter_all k nows s' of (rs, s'') \<Rightarrow> (r # rs, s'')))"

text \<open>What the \<^verbatim>\<open>await\<close> of \<open>update\<close> yields in state \<open>s\<close>: nothing to wait for, or
  the result of the awaited promise once it has settled (\<open>Inl e\<close> is the error thrown to
  the caller of the getter).\<close>

definition awaited :: "('n, 'd, 'a, 'f, 'w, 'v, 'e) session \<Rightarrow> update_result \<Rightarrow> ('e + unit) option" where
  "awaited s r =
     (case r of
        NotUpdating \<Rightarrow> Some (Inr ())
      | Awaiting p \<Rightarrow>
          (case refreshes s p of
             Some (k, cb, Finished None) \<Rightarrow> Some (Inr ())
           | Some (k, cb, Finished (Some e)) \<Rightarrow> Some (Inl e)
           | _ \<Rightarrow> None))"

text \<open>The key an event belongs to: the key of the getter called, or the key under which
  the promise of the event was registered.\<close>

fun event_key ::
  "('n, 'd, 'a, 'f, 'w, 'v, 'e) session \<Rightarrow> ('a, 'f, 'w, 'v, 'e) session_event \<Rightarrow> key option" where
  "event_key s (Getter k now) = Some k"
| "event_key s (Response p r) = map_option fst (refreshes s p)"
| "event_key s (Failure p e) = map_option fst (refreshes s p)"
| "event_key s (Then p now) = map_option fst (refreshes s p)"
| "event_key s (Cleanup p) = map_option fst (refreshes s p)"

text \<open>The invariant of a session: a key is registered in \<open>promise\<close> under \<open>p\<close> exactly
  while the refresh \<open>p\<close> of that key is pending; promise identifiers are positions of the
  request log; and every refresh runs the callback of its own key.\<close>

definition session_ok :: "('n, 'd, 'a, 'f, 'w, 'v, 'e) session \<Rightarrow> bool" where
  "session_ok s \<longleftrightarrow>
     (\<forall>k p. promise s k = Some p \<longleftrightarrow> refreshing s p k) \<and>
     (\<forall>p. length (requests s) \<le> p \<longrightarrow> refreshes s p = None) \<and>
     (\<forall>p k cb ph. refreshes s p = Some (k, cb, ph) \<longrightarrow> cb = k)"

text \<open>The events at which the request of promise \<open>p\<close> completes.\<close>

fun completes :: "pid \<Rightarrow> ('a, 'f, 'w, 'v, 'e) session_event \<Rightarrow> bool" where
  "completes p (Response q r) = (q = p)"
| "completes p (Failure q e) = (q = p)"
| "completes p ev = False"

text \<open>No refresh of key \<open>k\<close> has been started yet.\<close>

definition untouched :: "('n, 'd, 'a, 'f, 'w, 'v, 'e) session \<Rightarrow> key \<Rightarrow> bool" where
  "untouched s k \<longleftrightarrow>
     promise s k = None \<and> k \<notin> set (requests s) \<and>
     (\<forall>p k' cb ph. refreshes s p = Some (k', cb, ph) \<longrightarrow> k' \<noteq> k \<and> cb \<noteq> k)"

section \<open>The outer cache: class Users\<close>

text \<open>
  The promise \<^verbatim>\<open>_get(token).then(...).finally(...)\<close> that \<^verbatim>\<open>get\<close> creates
  passes through three phases:
  \<^item> \<open>Loading\<close>: the loader's promise is pending;
  \<^item> \<open>Chained r\<close>: the loader's promise has settled with \<open>r\<close> (\<open>Inr data\<close> after the
    \<^verbatim>\<open>then\<close> callback has stored the data, \<open>Inl e\<close> when the loader rejected and
    the callback was skipped); the \<^verbatim>\<open>finally\<close> callback has not run yet;
  \<^item> \<open>Settled r\<close>: the \<^verbatim>\<open>finally\<close> callback has run and the promise has settled
    with \<open>r\<close>: this is what every caller awaiting it receives.
\<close>

datatype ('e, 'v) load = Loading | Chained "'e + 'v" | Settled "'e + 'v"

text \<open>
  The fields \<open>users\<close> and \<open>promise\<close> are the two maps of the class. \<open>chain\<close> holds
  the promises created by \<^verbatim>\<open>get\<close>, by identifier, each with the token it loads;
  \<open>invoked\<close> is the log of the calls \<^verbatim>\<open>_get(token)\<close>, in order. The identifier of
  a promise is the position of its loader call in the log.
\<close>

record ('e, 'v) Users =
  users :: "token \<rightharpoonup> 'v"
  promise :: "token \<rightharpoonup> pid"
  chain :: "pid \<rightharpoonup> token \<times> ('e, 'v) load"
  invoked :: "token list"

text \<open>\<^verbatim>\<open>new Users(get)\<close>: both maps empty, no loader call made.\<close>

definition Users_new :: "('e, 'v) Users" where
  "Users_new = \<lparr>users = Map.empty, promise = Map.empty, chain = Map.empty, invoked = []\<rparr>"

text \<open>What a call of \<^verbatim>\<open>get\<close> returns: the cached object itself (line 35), or the
  promise it found or created (line 47).\<close>

datatype 'v get_result = Returned 'v | Awaits pid

text \<open>Lines 38 to 47: the pending promise of the token if there is one, otherwise a call
  of the loader and a new promise; the promise is (re)registered under the token.\<close>

definition get_miss ::
  "token \<Rightarrow> ('e, 'v) Users \<Rightarrow> 'v get_result \<times> ('e, 'v) Users" where
  "get_miss tok s =
     (case promise s tok of
        Some p \<Rightarrow> (Awaits p, s\<lparr>promise := (promise s)(tok \<mapsto> p)\<rparr>)
      | None \<Rightarrow>
          (let p = length (invoked s) in
           (Awaits p,
            s\<lparr>invoked := invoked s @ [tok],
              chain := (chain s)(p \<mapsto> (tok, Loading)),
              promise := (promise s)(tok \<mapsto> p)\<rparr>)))"

text \<open>Lines 32 to 36: \<^verbatim>\<open>existing && existing.expires_at >= Date.now()\<close>.\<close>

definition get ::
  "token \<Rightarrow> int \<Rightarrow> ('e, 'a UserData_scheme) Users \<Rightarrow>
   'a UserData_scheme get_result \<times> ('e, 'a UserData_scheme) Users" where
  "get tok now s =
     (case users s tok of
        Some existing \<Rightarrow>
          if num_ge (expires_at existing) now then (Returned existing, s)
          else get_miss tok s
      | None \<Rightarrow> get_miss tok s)"

text \<open>Lines 38 to 40, the \<^verbatim>\<open>then\<close> callback of promise \<open>p\<close>, run with the data the
  loader resolved with: \<^verbatim>\<open>this.users.set(token, data); return data\<close>. A promise
  settles once: the callback does nothing for a promise that is not \<open>Loading\<close>.\<close>

definition then_cb :: "pid \<Rightarrow> 'v \<Rightarrow> ('e, 'v) Users \<Rightarrow> ('e, 'v) Users" where
  "then_cb p data' s =
     (case chain s p of
        Some (tok, Loading) \<Rightarrow>
          s\<lparr>users := (users s)(tok \<mapsto> data'),
            chain := (chain s)(p \<mapsto> (tok, Chained (Inr data')))\<rparr>
      | _ \<Rightarrow> s)"

text \<open>The loader's promise rejects with \<open>e\<close>: the \<^verbatim>\<open>then\<close> callback is skipped and
  the rejection passes down the chain.\<close>

definition rejected :: "pid \<Rightarrow> 'e \<Rightarrow> ('e, 'v) Users \<Rightarrow> ('e, 'v) Users" where
  "rejected p e s =
     (case chain s p of
        Some (tok, Loading) \<Rightarrow> s\<lparr>chain := (chain s)(p \<mapsto> (tok, Chained (Inl e)))\<rparr>
      | _ \<Rightarrow> s)"

text \<open>Lines 41 to 43, the \<^verbatim>\<open>finally\<close> callback: \<^verbatim>\<open>this.promise.delete(token)\<close>;
  the promise then settles with the result passed down the chain.\<close>

definition finally_cb :: "pid \<Rightarrow> ('e, 'v) Users \<Rightarrow> ('e, 'v) Users" where
  "finally_cb p s =
     (case chain s p of
        Some (tok, Chained r) \<Rightarrow>
          s\<lparr>promise := (promise s)(tok := None), chain := (chain s)(p \<mapsto> (tok, Settled r))\<rparr>
      | _ \<Rightarrow> s)"

datatype ('e, 'v) event =
  Get token int
| Resolve pid 'v
| Reject pid 'e
| Finally pid

fun step ::
  "('e, 'a UserData_scheme) event \<Rightarrow> ('e, 'a UserData_scheme) Users \<Rightarrow>
   ('e, 'a UserData_scheme) Users" where
  "step (Get tok now) s = snd (get tok now s)"
| "step (Resolve p data') s = then_cb p data' s"
| "step (Reject p e) s = rejected p e s"
| "step (Finally p) s = finally_cb p s"

fun run ::
  "('e, 'a UserData_scheme) event list \<Rightarrow> ('e, 'a UserData_scheme) Users \<Rightarrow>
   ('e, 'a UserData_scheme) Users" where
  "run [] s = s"
| "run (ev # evs) s = run evs (step ev s)"

subsection \<open>Notions the claims about the outer cache are stated with\<close>

text \<open>A promise is unsettled until its \<^verbatim>\<open>finally\<close> callback has run. A load is in flight
  for a token when the promise created for that token is unsettled.\<close>

fun unsettled :: "('e, 'v) load \<Rightarrow> bool" where
  "unsettled Loading = True"
| "unsettled (Chained r) = True"
| "unsettled (Settled r) = False"

definition in_flight :: "('e, 'v) Users \<Rightarrow> pid \<Rightarrow> token \<Rightarrow> bool" where
  "in_flight s p tok =
     (case chain s p of Some (tok', st) \<Rightarrow> tok' = tok \<and> unsettled st | None \<Rightarrow> False)"

text \<open>The condition of line 34: an entry is cached for the token and the source serves
  it at time \<open>now\<close>.\<close>

definition cache_hit :: "('e, 'a UserData_scheme) Users \<Rightarrow> token \<Rightarrow> int \<Rightarrow> bool" where
  "cache_hit s tok now =
     (case users s tok of Some existing \<Rightarrow> num_ge (expires_at existing) now | None \<Rightarrow> False)"

text \<open>Concurrent callers: calls of \<^verbatim>\<open>get(tok)\<close> made one after the other, at the
  times \<open>nows\<close>, with nothing settling between them. The results are in call order.\<close>

fun get_all ::
  "token \<Rightarrow> int list \<Rightarrow> ('e, 'a UserData_scheme) Users \<Rightarrow>
   'a UserData_scheme get_result list \<times> ('e, 'a UserData_scheme) Users" where
  "get_all tok [] s = ([], s)"
| "get_all tok (now # nows) s =
     (case get tok now s of (r, s') \<Rightarrow>
        (case get_all tok nows s' of (rs, s'') \<Rightarrow> (r # rs, s'')))"

text \<open>What the caller of \<^verbatim>\<open>get\<close> finally receives, in state \<open>s\<close>: the cached object
  at once, or the result of the promise it awaits once that promise has settled (\<open>None\<close>
  while it has not).\<close>

definition outcome :: "('e, 'v) Users \<Rightarrow> 'v get_result \<Rightarrow> ('e + 'v) option" where
  "outcome s r =
     (case r of
        Returned v \<Rightarrow> Some (Inr v)
      | Awaits p \<Rightarrow> (case chain s p of Some (tok, Settled x) \<Rightarrow> Some x | _ \<Rightarrow> None))"

text \<open>The events at which the loader's promise of \<open>p\<close> settles.\<close>

fun settles :: "pid \<Rightarrow> ('e, 'v) event \<Rightarrow> bool" where
  "settles p (Resolve q v) = (q = p)"
| "settles p (Reject q e) = (q = p)"
| "settles p ev = False"

text \<open>The invariant of the two maps: a token is registered in \<open>promise\<close> under \<open>p\<close>
  exactly while the load \<open>p\<close> of that token is in flight, and promise identifiers are
  positions of the log of loader calls.\<close>

definition registered :: "('e, 'v) Users \<Rightarrow> bool" where
  "registered s \<longleftrightarrow>
     (\<forall>tok p. promise s tok = Some p \<longleftrightarrow> in_flight s p tok) \<and>
     (\<forall>p. length (invoked s) \<le> p \<longrightarrow> chain s p = None)"

section \<open>The loader of Users.coral\<close>

text \<open>
  Lines 50 to 65: \<^verbatim>\<open>Users.coral(storage, znc_proxy_url)\<close> is \<^verbatim>\<open>new Users(loader)\<close>
  for the loader modelled here. One run of the loader passes through these phases:
  \<^item> \<open>AwaitingToken\<close>: suspended at \<^verbatim>\<open>await getToken(storage, token, znc_proxy_url)\<close>;
  \<^item> \<open>AwaitingAll nso data a f w v\<close>: the four requests have been sent and the loader
    is suspended at \<^verbatim>\<open>await Promise.all([...])\<close>; \<open>a\<close>, \<open>f\<close>, \<open>w\<close>, \<open>v\<close> hold the
    responses that have arrived;
  \<^item> \<open>AllResolved nso data a f w v\<close>: the four requests have resolved and
    \<^verbatim>\<open>Promise.all\<close> is fulfilled; the loader has not resumed yet;
  \<^item> \<open>LoadResolved user\<close>: the loader returned \<^verbatim>\<open>new CoralUser(...)\<close>;
  \<^item> \<open>LoadRejected e\<close>: the loader's promise rejected with \<open>e\<close>.
  \<^verbatim>\<open>getToken\<close> and the network client are not part of the sources at hand: what they
  resolve or reject with arrives as events.
\<close>

datatype ('n, 'd, 'a, 'f, 'w, 'v, 'e) coral_load =
  AwaitingToken
| AwaitingAll 'n 'd "'a ZncSuccessResponse option" "'f Friends ZncSuccessResponse option"
    "'w ZncSuccessResponse option" "'v ZncSuccessResponse option"
| AllResolved 'n 'd "'a ZncSuccessResponse" "'f Friends ZncSuccessResponse"
    "'w ZncSuccessResponse" "'v ZncSuccessResponse"
| LoadResolved "('n, 'd, 'a, 'f, 'w, 'v) CoralUser"
| LoadRejected 'e

text \<open>The state of a run: its phase, the calls of \<^verbatim>\<open>getToken\<close> it made (with their
  arguments) and the requests it sent through the network client, in order.\<close>

record ('s, 'n, 'd, 'a, 'f, 'w, 'v, 'e) coral_loader =
  phase :: "('n, 'd, 'a, 'f, 'w, 'v, 'e) coral_load"
  exchanged :: "('s \<times> token \<times> string option) list"
  sent :: "key list"

text \<open>Line 54, up to the \<^verbatim>\<open>await\<close>: the loader is called with the token and calls
  \<^verbatim>\<open>getToken\<close>.\<close>

definition coral_loader_start ::
  "'s \<Rightarrow> string option \<Rightarrow> token \<Rightarrow> ('s, 'n, 'd, 'a, 'f, 'w, 'v, 'e) coral_loader" where
  "coral_loader_start storage znc_proxy_url tok =
     \<lparr>phase = AwaitingToken, exchanged = [(storage, tok, znc_proxy_url)], sent = []\<rparr>"

text \<open>\<^verbatim>\<open>Promise.all\<close> is fulfilled once every element is.\<close>

fun promise_all ::
  "'n \<Rightarrow> 'd \<Rightarrow> 'a ZncSuccessResponse option \<Rightarrow> 'f Friends ZncSuccessResponse option \<Rightarrow>
   'w ZncSuccessResponse option \<Rightarrow> 'v ZncSuccessResponse option \<Rightarrow>
   ('n, 'd, 'a, 'f, 'w, 'v, 'e) coral_load" where
  "promise_all n d (Some a) (Some f) (Some w) (Some v) = AllResolved n d a f w v"
| "promise_all n d a f w v = AwaitingAll n d a f w v"

text \<open>A promise settles once: a response for a request that has one already is not
  an event of the source and changes nothing.\<close>

fun keep :: "'x option \<Rightarrow> 'x \<Rightarrow> 'x option" where
  "keep None x = Some x"
| "keep (Some y) x = Some y"

fun request_resolved ::
  "('a, 'f, 'w, 'v) response \<Rightarrow> ('n, 'd, 'a, 'f, 'w, 'v, 'e) coral_load \<Rightarrow>
   ('n, 'd, 'a, 'f, 'w, 'v, 'e) coral_load" where
  "request_resolved (AnnouncementsResponse x) (AwaitingAll n d a f w v) =
     promise_all n d (keep a x) f w v"
| "request_resolved (FriendListResponse x) (AwaitingAll n d a f w v) =
     promise_all n d a (keep f x) w v"
| "request_resolved (WebServicesResponse x) (AwaitingAll n d a f w v) =
     promise_all n d a f (keep w x) v"
| "request_resolved (ActiveEventResponse x) (AwaitingAll n d a f w v) =
     promise_all n d a f w (keep v x)"
| "request_resolved r ph = ph"

text \<open>\<^verbatim>\<open>Promise.all\<close> rejects as soon as one element rejects, with that element's
  error.\<close>

fun has_response ::
  "key \<Rightarrow> 'a ZncSuccessResponse option \<Rightarrow> 'f Friends ZncSuccessResponse option \<Rightarrow>
   'w ZncSuccessResponse option \<Rightarrow> 'v ZncSuccessResponse option \<Rightarrow> bool" where
  "has_response announcements_key a f w v = (a \<noteq> None)"
| "has_response friends_key a f w v = (f \<noteq> None)"
| "has_response webservices_key a f w v = (w \<noteq> None)"
| "has_response active_event_key a f w v = (v \<noteq> None)"

fun request_rejected ::
  "key \<Rightarrow> 'e \<Rightarrow> ('n, 'd, 'a, 'f, 'w, 'v, 'e) coral_load \<Rightarrow>
   ('n, 'd, 'a, 'f, 'w, 'v, 'e) coral_load" where
  "request_rejected k e (AwaitingAll n d a f w v) =
     (if has_response k a f w v then AwaitingAll n d a f w v else LoadRejected e)"
| "request_rejected k e ph = ph"

datatype ('n, 'd, 'a, 'f, 'w, 'v, 'e) loader_event =
  TokenResolved 'n 'd
| TokenRejected 'e
| RequestResolved "('a, 'f, 'w, 'v) response"
| RequestRejected key 'e
| Resume int "key \<Rightarrow> int"

text \<open>
  The steps of a run. When \<^verbatim>\<open>getToken\<close> resolves, the loader calls the four methods
  of the client one after the other (lines 57 to 60), all before it awaits anything:
  the four requests are under way together. When \<^verbatim>\<open>Promise.all\<close> is fulfilled the
  loader resumes and constructs the object (line 63); \<open>Resume\<close> carries the readings of
  the clock the constructor takes.
\<close>

fun loader_step ::
  "('n, 'd, 'a, 'f, 'w, 'v, 'e) loader_event \<Rightarrow> ('s, 'n, 'd, 'a, 'f, 'w, 'v, 'e) coral_loader \<Rightarrow>
   ('s, 'n, 'd, 'a, 'f, 'w, 'v, 'e) coral_loader" where
  "loader_step (TokenResolved n d) l =
     (case phase l of
        AwaitingToken \<Rightarrow>
          l\<lparr>phase := AwaitingAll n d None None None None,
            sent := sent l @ [announcements_key, friends_key, webservices_key, active_event_key]\<rparr>
      | _ \<Rightarrow> l)"
| "loader_step (TokenRejected e) l =
     (case phase l of AwaitingToken \<Rightarrow> l\<lparr>phase := LoadRejected e\<rparr> | _ \<Rightarrow> l)"
| "loader_step (RequestResolved r) l = l\<lparr>phase := request_resolved r (phase l)\<rparr>"
| "loader_step (RequestRejected k e) l = l\<lparr>phase := request_rejected k e (phase l)\<rparr>"
| "loader_step (Resume tc tu) l =
     (case phase l of
        AllResolved n d a f w v \<Rightarrow> l\<lparr>phase := LoadResolved (CoralUser_new tc tu n d a f w v)\<rparr>
      | _ \<Rightarrow> l)"

fun loader_run ::
  "('n, 'd, 'a, 'f, 'w, 'v, 'e) loader_event list \<Rightarrow> ('s, 'n, 'd, 'a, 'f, 'w, 'v, 'e) coral_loader \<Rightarrow>
   ('s, 'n, 'd, 'a, 'f, 'w, 'v, 'e) coral_loader" where
  "loader_run [] l = l"
| "loader_run (ev # evs) l = loader_run evs (loader_step ev l)"

text \<open>The request an event completes, if any.\<close>

fun completed :: "('n, 'd, 'a, 'f, 'w, 'v, 'e) loader_event \<Rightarrow> key option" where
  "completed (RequestResolved r) = Some (answers r)"
| "completed (RequestRejected k e) = Some k"
| "completed ev = None"

text \<open>The loader's promise has settled.\<close>

fun load_settled :: "('n, 'd, 'a, 'f, 'w, 'v, 'e) coral_load \<Rightarrow> bool" where
  "load_settled (LoadResolved u) = True"
| "load_settled (LoadRejected e) = True"
| "load_settled ph = False"

text \<open>What a phase owes to the events so far: the credentials and every response it
  holds have arrived, and a constructed object was built from them.\<close>

fun arrived ::
  "('n, 'd, 'a, 'f, 'w, 'v, 'e) loader_event set \<Rightarrow> 'a ZncSuccessResponse option \<Rightarrow>
   'f Friends ZncSuccessResponse option \<Rightarrow> 'w ZncSuccessResponse option \<Rightarrow>
   'v ZncSuccessResponse option \<Rightarrow> bool" where
  "arrived E a f w v \<longleftrightarrow>
     (\<forall>x. a = Some x \<longrightarrow> RequestResolved (AnnouncementsResponse x) \<in> E) \<and>
     (\<forall>x. f = Some x \<longrightarrow> RequestResolved (FriendListResponse x) \<in> E) \<and>
     (\<forall>x. w = Some x \<longrightarrow> RequestResolved (WebServicesResponse x) \<in> E) \<and>
     (\<forall>x. v = Some x \<longrightarrow> RequestResolved (ActiveEventResponse x) \<in> E)"

fun justified ::
  "('n, 'd, 'a, 'f, 'w, 'v, 'e) loader_event set \<Rightarrow> ('n, 'd, 'a, 'f, 'w, 'v, 'e) coral_load \<Rightarrow> bool" where
  "justified E AwaitingToken = True"
| "justified E (AwaitingAll n d a f w v) = (TokenResolved n d \<in> E \<and> arrived E a f w v)"
| "justified E (AllResolved n d a f w v) =
     (TokenResolved n d \<in> E \<and> arrived E (Some a) (Some f) (Some w) (Some v))"
| "justified E (LoadResolved u) =
     (\<exists>tc tu n d a f w v. u = CoralUser_new tc tu n d a f w v \<and> Resume tc tu \<in> E \<and>
        TokenResolved n d \<in> E \<and> arrived E (Some a) (Some f) (Some w) (Some v))"
| "justified E (LoadRejected e) = True"

text \<open>The first response to each of the four requests in a list of responses.\<close>

fun first_announcements :: "('a, 'f, 'w, 'v) response list \<Rightarrow> 'a ZncSuccessResponse option" where
  "first_announcements [] = None"
| "first_announcements (AnnouncementsResponse x # rs) = Some x"
| "first_announcements (r # rs) = first_announcements rs"

fun first_friends :: "('a, 'f, 'w, 'v) response list \<Rightarrow> 'f Friends ZncSuccessResponse option" where
  "first_friends [] = None"
| "first_friends (FriendListResponse x # rs) = Some x"
| "first_friends (r # rs) = first_friends rs"

fun first_webservices :: "('a, 'f, 'w, 'v) response list \<Rightarrow> 'w ZncSuccessResponse option" where
  "first_webservices [] = None"
| "first_webservices (WebServicesResponse x # rs) = Some x"
| "first_webservices (r # rs) = first_webservices rs"

fun first_active_event :: "('a, 'f, 'w, 'v) response list \<Rightarrow> 'v ZncSuccessResponse option" where
  "first_active_event [] = None"
| "first_active_event (ActiveEventResponse x # rs) = Some x"
| "first_active_event (r # rs) = first_active_event rs"

fun orelse :: "'x option \<Rightarrow> 'x option \<Rightarrow> 'x option" where
  "orelse None y = y"
| "orelse (Some x) y = Some x"

section \<open>Cache hits\<close>

text \<open>
  Claim C2. When an entry is cached for the key and the current time is strictly before
  its \<open>expires_at\<close>, \<open>get\<close> returns that very entry and leaves the whole state as it
  was: the loader is not called (\<open>invoked\<close> is unchanged) and no promise is registered,
  created or awaited (\<open>promise\<close> and \<open>chain\<close> are unchanged).
\<close>

theorem get_fresh_returns_cached:
  "users s tok = Some existing \<Longrightarrow> num_gt (expires_at existing) now \<Longrightarrow>
   get tok now s = (Returned existing, s)"
  by (cases "expires_at existing") (simp_all add: get_def)

theorem get_fresh_returns_cached_witness:
  "get ''t'' 5 (then_cb 0 \<lparr>created_at = Millis 0, expires_at = Millis 9\<rparr>
       (snd (get ''t'' 0 Users_new)) :: (unit, UserData) Users)
   = (Returned \<lparr>created_at = Millis 0, expires_at = Millis 9\<rparr>,
      then_cb 0 \<lparr>created_at = Millis 0, expires_at = Millis 9\<rparr> (snd (get ''t'' 0 Users_new)))"
  by (rule get_fresh_returns_cached)
     (simp_all add: get_def get_miss_def then_cb_def Users_new_def)

section \<open>The invariant of the pending map\<close>

lemma registered_promise: "registered s \<Longrightarrow> (promise s tok = Some p) = in_flight s p tok"
  by (simp add: registered_def)

lemma registered_chain: "registered s \<Longrightarrow> length (invoked s) \<le> p \<Longrightarrow> chain s p = None"
  by (simp add: registered_def)

lemma chain_lt: "registered s \<Longrightarrow> chain s p = Some x \<Longrightarrow> p < length (invoked s)"
  using registered_chain[of s p] by (cases "p < length (invoked s)") simp_all

lemma in_flight_chain_upd:
  "chain s' = (chain s)(p \<mapsto> (tok, st)) \<Longrightarrow>
   in_flight s' q tok' = (if q = p then tok' = tok \<and> unsettled st else in_flight s q tok')"
  by (auto simp add: in_flight_def)

lemma in_flight_chain_same: "chain s' = chain s \<Longrightarrow> in_flight s' q tok = in_flight s q tok"
  by (simp add: in_flight_def)

lemma in_flight_at: "chain s p = Some (tok, st) \<Longrightarrow> in_flight s p tok' = (tok' = tok \<and> unsettled st)"
  by (auto simp add: in_flight_def)

lemma not_in_flight_None: "chain s p = None \<Longrightarrow> \<not> in_flight s p tok"
  by (simp add: in_flight_def)

lemma registered_new: "registered Users_new"
  by (simp add: registered_def Users_new_def in_flight_def)

lemma registered_get_miss:
  assumes r: "registered s" shows "registered (snd (get_miss tok s))"
proof (cases "promise s tok")
  case None
  define n where "n = length (invoked s)"
  define s' where "s' = snd (get_miss tok s)"
  have p': "promise s' = (promise s)(tok \<mapsto> n)"
    and c': "chain s' = (chain s)(n \<mapsto> (tok, Loading))"
    and i': "invoked s' = invoked s @ [tok]"
    using None by (simp_all add: s'_def n_def get_miss_def Let_def)
  have cn: "chain s n = None" using r by (simp add: n_def registered_chain)
  have "(promise s' t = Some p) = in_flight s' p t" for t p
  proof (cases "p = n")
    case True
    have "promise s t \<noteq> Some n"
      using registered_promise[OF r, of t n] not_in_flight_None[OF cn, of t] by simp
    then show ?thesis using True p' in_flight_chain_upd[OF c', of p t] by auto
  next
    case False
    have "\<not> in_flight s p tok"
      using registered_promise[OF r, of tok p] None by simp
    then show ?thesis
      using False p' in_flight_chain_upd[OF c', of p t] registered_promise[OF r, of t p]
      by (cases "t = tok") auto
  qed
  moreover have "length (invoked s') \<le> p \<Longrightarrow> chain s' p = None" for p
    using registered_chain[OF r, of p] by (simp add: i' c' n_def)
  ultimately show ?thesis unfolding registered_def s'_def by blast
next
  case (Some p)
  then have "s\<lparr>promise := (promise s)(tok \<mapsto> p)\<rparr> = s" by (simp add: map_upd_triv)
  then show ?thesis using assms Some by (simp add: get_miss_def)
qed

lemma registered_get: "registered s \<Longrightarrow> registered (snd (get tok now s))"
  using registered_get_miss[of s tok]
  by (auto simp: get_def split: option.splits)

lemma registered_settle:
  assumes r: "registered s" and c: "chain s p = Some (tok, Loading)"
    and c': "chain s' = (chain s)(p \<mapsto> (tok, Chained x))"
    and p': "promise s' = promise s" and i': "invoked s' = invoked s"
  shows "registered s'"
proof -
  have "(promise s' t = Some q) = in_flight s' q t" for t q
    using registered_promise[OF r, of t q] in_flight_chain_upd[OF c', of q t]
      in_flight_at[OF c, of t] p'
    by auto
  moreover have "length (invoked s') \<le> q \<Longrightarrow> chain s' q = None" for q
    using registered_chain[OF r, of q] chain_lt[OF r c] by (simp add: i' c')
  ultimately show ?thesis unfolding registered_def by blast
qed

lemma registered_then_cb:
  assumes "registered s" shows "registered (then_cb p d s)"
proof (cases "\<exists>tok. chain s p = Some (tok, Loading)")
  case True
  then obtain tok where c: "chain s p = Some (tok, Loading)" by blast
  show ?thesis
    by (rule registered_settle[OF assms c, of _ "Inr d"]) (simp_all add: then_cb_def c)
next
  case False
  then have "then_cb p d s = s"
    by (auto simp: then_cb_def split: option.splits load.splits)
  then show ?thesis using assms by simp
qed

lemma registered_rejected:
  assumes "registered s" shows "registered (rejected p e s)"
proof (cases "\<exists>tok. chain s p = Some (tok, Loading)")
  case True
  then obtain tok where c: "chain s p = Some (tok, Loading)" by blast
  show ?thesis
    by (rule registered_settle[OF assms c, of _ "Inl e"]) (simp_all add: rejected_def c)
next
  case False
  then have "rejected p e s = s"
    by (auto simp: rejected_def split: option.splits load.splits)
  then show ?thesis using assms by simp
qed

lemma registered_finally_cb:
  assumes r: "registered s" shows "registered (finally_cb p s)"
proof (cases "\<exists>tok x. chain s p = Some (tok, Chained x)")
  case True
  then obtain tok x where c: "chain s p = Some (tok, Chained x)" by blast
  define s' where "s' = finally_cb p s"
  have p': "promise s' = (promise s)(tok := None)"
    and c': "chain s' = (chain s)(p \<mapsto> (tok, Settled x))"
    and i': "invoked s' = invoked s"
    by (simp_all add: s'_def finally_cb_def c)
  have pr: "promise s tok = Some p"
    using registered_promise[OF r, of tok p] in_flight_at[OF c, of tok] by simp
  have "(promise s' t = Some q) = in_flight s' q t" for t q
    using registered_promise[OF r, of t q] in_flight_chain_upd[OF c', of q t]
      in_flight_at[OF c, of t] p' pr registered_promise[OF r, of tok q]
    by (cases "t = tok"; cases "q = p") auto
  moreover have "length (invoked s') \<le> q \<Longrightarrow> chain s' q = None" for q
    using registered_chain[OF r, of q] chain_lt[OF r c] by (simp add: i' c')
  ultimately show ?thesis unfolding registered_def s'_def by blast
next
  case False
  then have "finally_cb p s = s"
    by (auto simp: finally_cb_def split: option.splits load.splits)
  then show ?thesis using assms by simp
qed

lemma registered_step: "registered s \<Longrightarrow> registered (step ev s)"
  by (cases ev) (simp_all add: registered_get registered_then_cb registered_rejected registered_finally_cb)

lemma registered_run: "registered s \<Longrightarrow> registered (run evs s)"
  by (induction evs arbitrary: s) (simp_all add: registered_step)

lemma registered_reachable: "registered (run evs Users_new)"
  by (simp add: registered_run registered_new)

section \<open>Coalescing of concurrent callers\<close>

lemma get_miss_eq: "\<not> cache_hit s tok now \<Longrightarrow> get tok now s = get_miss tok s"
  by (simp add: get_def cache_hit_def split: option.splits)

lemma get_miss_pending: "promise s tok = Some p \<Longrightarrow> get_miss tok s = (Awaits p, s)"
  by (simp add: get_miss_def map_upd_triv)

lemma get_all_pending:
  "promise s tok = Some p \<Longrightarrow> \<forall>now\<in>set nows. \<not> cache_hit s tok now \<Longrightarrow>
   get_all tok nows s = (map (\<lambda>_. Awaits p) nows, s)"
  by (induction nows) (simp_all add: get_miss_eq get_miss_pending)

lemma get_miss_new:
  assumes "promise s tok = None"
  shows "fst (get_miss tok s) = Awaits (length (invoked s))"
    and "users (snd (get_miss tok s)) = users s"
    and "promise (snd (get_miss tok s)) = (promise s)(tok \<mapsto> length (invoked s))"
    and "chain (snd (get_miss tok s)) = (chain s)(length (invoked s) \<mapsto> (tok, Loading))"
    and "invoked (snd (get_miss tok s)) = invoked s @ [tok]"
  using assms by (simp_all add: get_miss_def Let_def)

lemma cache_hit_users: "users s' = users s \<Longrightarrow> cache_hit s' tok now = cache_hit s tok now"
  by (simp add: cache_hit_def)

lemma get_all_new:
  assumes n: "promise s tok = None" and m: "\<forall>now\<in>set nows. \<not> cache_hit s tok now"
    and ne: "nows \<noteq> []"
  shows "get_all tok nows s = (map (\<lambda>_. Awaits (length (invoked s))) nows, snd (get_miss tok s))"
proof (cases nows)
  case Nil
  with ne show ?thesis by simp
next
  case (Cons now rest)
  let ?s' = "snd (get_miss tok s)"
  have g: "get tok now s = (Awaits (length (invoked s)), ?s')"
    using m Cons get_miss_new(1)[OF n] by (simp add: get_miss_eq prod_eq_iff)
  have "promise ?s' tok = Some (length (invoked s))"
    by (simp add: get_miss_new(3)[OF n])
  moreover have "\<forall>now\<in>set rest. \<not> cache_hit ?s' tok now"
    using m Cons cache_hit_users[OF get_miss_new(2)[OF n]] by simp
  ultimately have h: "get_all tok rest ?s' = (map (\<lambda>_. Awaits (length (invoked s))) rest, ?s')"
    by (rule get_all_pending)
  show ?thesis unfolding Cons by (simp add: g h)
qed

lemma get_all_run: "snd (get_all tok nows s) = run (map (Get tok) nows) s"
proof (induction nows arbitrary: s)
  case Nil
  show ?case by simp
next
  case (Cons now nows)
  obtain r s' where g: "get tok now s = (r, s')" by (cases "get tok now s")
  obtain rs s'' where h: "get_all tok nows s' = (rs, s'')" by (cases "get_all tok nows s'")
  show ?case using Cons[of s'] by (simp add: g h)
qed

lemma run_append: "run (evs @ evs') s = run evs' (run evs s)"
  by (induction evs arbitrary: s) simp_all

lemma in_flight_unique:
  "registered s \<Longrightarrow> in_flight s p tok \<Longrightarrow> in_flight s q tok \<Longrightarrow> p = q"
  using registered_promise[of s tok p] registered_promise[of s tok q] by simp

lemma finally_cb_removes:
  assumes "chain s p = Some (tok, Chained x)"
  shows "promise (finally_cb p s) tok = None"
    and "chain (finally_cb p s) p = Some (tok, Settled x)"
    and "finally_cb p (finally_cb p s) = finally_cb p s"
  using assms by (simp_all add: finally_cb_def)

lemma settle_then_finally:
  assumes "in_flight s p tok"
  shows "promise (finally_cb p (then_cb p v s)) tok = None"
    and "promise (finally_cb p (rejected p e s)) tok = None"
proof -
  obtain st where c: "chain s p = Some (tok, st)" and u: "unsettled st"
    using assms by (auto simp: in_flight_def split: option.splits)
  show "promise (finally_cb p (then_cb p v s)) tok = None"
    using c u by (cases st) (simp_all add: then_cb_def finally_cb_def)
  show "promise (finally_cb p (rejected p e s)) tok = None"
    using c u by (cases st) (simp_all add: rejected_def finally_cb_def)
qed

lemma finally_cb_once: "finally_cb p (finally_cb p s) = finally_cb p s"
proof (cases "\<exists>tok x. chain s p = Some (tok, Chained x)")
  case True
  then show ?thesis by (auto simp: finally_cb_def)
next
  case False
  then have "finally_cb p s = s"
    by (auto simp: finally_cb_def split: option.splits load.splits)
  then show ?thesis by simp
qed

text \<open>
  Claim C1. Let \<open>s\<close> be any state the cache can reach, and let one or more callers call
  \<open>get(tok)\<close> one after the other, at times at which \<open>s\<close> holds no entry for \<open>tok\<close> that
  the source serves, before anything settles. Then there is one promise \<open>p\<close> such that
  \<^item> every caller is handed \<open>p\<close>;
  \<^item> the loader has been called exactly once for these callers: the calls add one entry
    \<open>tok\<close> to the log of loader calls when no load of \<open>tok\<close> was in flight in \<open>s\<close>, and
    none when one was (the callers then join it);
  \<^item> afterwards and at any later time, under every schedule, a token is registered in
    the pending map under \<open>q\<close> exactly while the load \<open>q\<close> of that token is in flight, so
    two loads in flight for one token are the same load;
  \<^item> when the loader's promise settles, either way, the \<^verbatim>\<open>finally\<close> callback removes the
    pending entry; the callback runs once per promise, and running it again changes
    nothing.
\<close>

theorem get_single_flight:
  fixes evs :: "('e, 'a UserData_scheme) event list" and tok :: token and nows :: "int list"
  defines "s \<equiv> run evs Users_new"
  defines "s' \<equiv> snd (get_all tok nows (run evs Users_new))"
  assumes ne: "nows \<noteq> []"
    and miss: "\<forall>now\<in>set nows. \<not> cache_hit (run evs Users_new) tok now"
  shows "\<exists>p. fst (get_all tok nows s) = map (\<lambda>_. Awaits p) nows \<and>
      invoked s' = invoked s @ (if promise s tok = None then [tok] else []) \<and>
      promise s' tok = Some p \<and>
      (\<forall>q. in_flight s' q tok \<longleftrightarrow> q = p) \<and>
      (\<forall>evs' t q. promise (run evs' s') t = Some q \<longleftrightarrow> in_flight (run evs' s') q t) \<and>
      (\<forall>evs' t q q'. in_flight (run evs' s') q t \<and> in_flight (run evs' s') q' t \<longrightarrow> q = q') \<and>
      (\<forall>v. promise (then_cb p v s') tok = Some p \<and>
           promise (finally_cb p (then_cb p v s')) tok = None \<and>
           finally_cb p (finally_cb p (then_cb p v s')) = finally_cb p (then_cb p v s')) \<and>
      (\<forall>e. promise (rejected p e s') tok = Some p \<and>
           promise (finally_cb p (rejected p e s')) tok = None \<and>
           finally_cb p (finally_cb p (rejected p e s')) = finally_cb p (rejected p e s'))"
proof -
  have r: "registered s" unfolding s_def by (rule registered_reachable)
  have "s' = run (evs @ map (Get tok) nows) Users_new"
    by (simp add: s'_def get_all_run run_append)
  then have r': "registered s'" by (simp add: registered_reachable)
  have inv: "(promise (run evs' s') t = Some q) = in_flight (run evs' s') q t" for evs' t q
    using registered_run[OF r', of evs'] by (rule registered_promise)
  have uniq: "in_flight (run evs' s') q t \<and> in_flight (run evs' s') q' t \<longrightarrow> q = q'"
    for evs' t q q'
    using in_flight_unique[OF registered_run[OF r', of evs']] by blast
  have settle: "(\<forall>v. promise (then_cb p v s') tok = Some p \<and>
           promise (finally_cb p (then_cb p v s')) tok = None \<and>
           finally_cb p (finally_cb p (then_cb p v s')) = finally_cb p (then_cb p v s')) \<and>
      (\<forall>e. promise (rejected p e s') tok = Some p \<and>
           promise (finally_cb p (rejected p e s')) tok = None \<and>
           finally_cb p (finally_cb p (rejected p e s')) = finally_cb p (rejected p e s'))"
    if pr: "promise s' tok = Some p" for p
  proof -
    have f: "in_flight s' p tok" using registered_promise[OF r', of tok p] pr by simp
    have "promise (then_cb p v s') tok = Some p" for v
      using pr by (simp add: then_cb_def split: option.splits load.splits prod.splits)
    moreover have "promise (rejected p e s') tok = Some p" for e
      using pr by (simp add: rejected_def split: option.splits load.splits prod.splits)
    ultimately show ?thesis
      using settle_then_finally[OF f] finally_cb_once by blast
  qed
  show ?thesis
  proof (cases "promise s tok")
    case None
    let ?p = "length (invoked s)"
    have g: "get_all tok nows s = (map (\<lambda>_. Awaits ?p) nows, snd (get_miss tok s))"
      using None miss ne unfolding s_def by (rule get_all_new)
    have s'_eq: "s' = snd (get_miss tok s)" using g by (simp add: s'_def s_def)
    have pr: "promise s' tok = Some ?p" using s'_eq get_miss_new(3)[OF None] by simp
    have one: "in_flight s' q tok \<longleftrightarrow> q = ?p" for q
      using registered_promise[OF r', of tok q] pr by auto
    have i: "invoked s' = invoked s @ (if promise s tok = None then [tok] else [])"
      using s'_eq None get_miss_new(5)[OF None] by simp
    have "fst (get_all tok nows s) = map (\<lambda>_. Awaits ?p) nows" using g by simp
    then show ?thesis using i pr one inv uniq settle[OF pr] by blast
  next
    case (Some p)
    have g: "get_all tok nows s = (map (\<lambda>_. Awaits p) nows, s)"
      using Some miss unfolding s_def by (rule get_all_pending)
    have s'_eq: "s' = s" using g by (simp add: s'_def s_def)
    have pr: "promise s' tok = Some p" using s'_eq Some by simp
    have one: "in_flight s' q tok \<longleftrightarrow> q = p" for q
      using registered_promise[OF r', of tok q] pr by auto
    have i: "invoked s' = invoked s @ (if promise s tok = None then [tok] else [])"
      using s'_eq Some by simp
    have "fst (get_all tok nows s) = map (\<lambda>_. Awaits p) nows" using g by simp
    then show ?thesis using i pr one inv uniq settle[OF pr] by blast
  qed
qed

theorem get_single_flight_witness:
  "\<exists>p. fst (get_all ''t'' [7, 8]
           (run [Get ''t'' 0, Resolve 0 \<lparr>created_at = Millis 0, expires_at = Millis 5\<rparr>, Finally 0]
              (Users_new :: (string, UserData) Users))) = [Awaits p, Awaits p] \<and>
       invoked (snd (get_all ''t'' [7, 8]
           (run [Get ''t'' 0, Resolve 0 \<lparr>created_at = Millis 0, expires_at = Millis 5\<rparr>, Finally 0]
              (Users_new :: (string, UserData) Users)))) = [''t'', ''t'']"
  using get_single_flight[where nows = "[7, 8]" and tok = "''t''" and
      evs = "[Get ''t'' 0, Resolve 0 \<lparr>created_at = Millis 0, expires_at = Millis 5\<rparr>, Finally 0]
               :: (string, UserData) event list"]
  by (simp add: cache_hit_def get_def get_miss_def then_cb_def finally_cb_def Users_new_def)

section \<open>Expired entries\<close>

lemma num_lt_not_ge: "num_lt a b = (\<not> num_ge a b)"
  by (cases a) auto

text \<open>
  Claim C3, as stated, fails at the boundary: line 34 serves the entry when
  \<^verbatim>\<open>expires_at >= Date.now()\<close>, so at \<open>now = expires_at\<close> the cached entry is
  returned and the loader is not called. Here an entry that expires at 5 has been loaded
  and its promise has settled; \<open>get\<close> at time 5 returns it and changes nothing.
\<close>

theorem get_at_expiry_counterexample:
  "users (run [Get ''t'' 0, Resolve 0 \<lparr>created_at = Millis 0, expires_at = Millis 5\<rparr>, Finally 0]
            (Users_new :: (string, UserData) Users)) ''t''
     = Some \<lparr>created_at = Millis 0, expires_at = Millis 5\<rparr> \<and>
   (5 :: int) \<ge> 5 \<and>
   fst (get ''t'' 5
     (run [Get ''t'' 0, Resolve 0 \<lparr>created_at = Millis 0, expires_at = Millis 5\<rparr>, Finally 0]
            (Users_new :: (string, UserData) Users)))
     = Returned \<lparr>created_at = Millis 0, expires_at = Millis 5\<rparr> \<and>
   invoked (snd (get ''t'' 5
     (run [Get ''t'' 0, Resolve 0 \<lparr>created_at = Millis 0, expires_at = Millis 5\<rparr>, Finally 0]
            (Users_new :: (string, UserData) Users))))
     = invoked (run [Get ''t'' 0, Resolve 0 \<lparr>created_at = Millis 0, expires_at = Millis 5\<rparr>, Finally 0]
            (Users_new :: (string, UserData) Users))"
  by (simp add: get_def get_miss_def then_cb_def finally_cb_def Users_new_def)

text \<open>
  Claim C3, amended. Let \<open>s\<close> be a reachable state with an entry cached for the key and
  no load of the key in flight, and let one or more callers call \<open>get\<close> at times
  strictly after the entry's \<open>expires_at\<close>, before anything settles. Then no caller is
  handed the stale entry: all are handed the same new promise, the loader is called
  exactly once, and the stale entry stays in the map until the load resolves. At any
  time up to and including \<open>expires_at\<close> the entry is still served.
\<close>

theorem get_expired_reloads:
  fixes evs :: "('e, 'a UserData_scheme) event list" and tok :: token
  defines "s \<equiv> run evs Users_new"
  assumes ex: "users (run evs Users_new) tok = Some existing"
    and late: "\<forall>now\<in>set nows. num_lt (expires_at existing) now"
    and ne: "nows \<noteq> []"
    and idle: "promise (run evs Users_new) tok = None"
  shows "fst (get_all tok nows s) = map (\<lambda>_. Awaits (length (invoked s))) nows \<and>
     invoked (snd (get_all tok nows s)) = invoked s @ [tok] \<and>
     chain (snd (get_all tok nows s)) (length (invoked s)) = Some (tok, Loading) \<and>
     users (snd (get_all tok nows s)) = users s \<and>
     (\<forall>now. num_ge (expires_at existing) now \<longrightarrow> get tok now s = (Returned existing, s))"
proof -
  have miss: "\<forall>now\<in>set nows. \<not> cache_hit s tok now"
    using ex late by (simp add: cache_hit_def s_def num_lt_not_ge)
  have idle': "promise s tok = None" using idle by (simp add: s_def)
  have g: "get_all tok nows s =
      (map (\<lambda>_. Awaits (length (invoked s))) nows, snd (get_miss tok s))"
    using idle' miss ne by (rule get_all_new)
  have "get tok now s = (Returned existing, s)" if "num_ge (expires_at existing) now" for now
    using that ex by (simp add: get_def s_def)
  then show ?thesis
    using g get_miss_new(2,4,5)[OF idle'] by simp
qed

theorem get_expired_reloads_witness:
  "fst (get_all ''t'' [6, 9]
     (run [Get ''t'' 0, Resolve 0 \<lparr>created_at = Millis 0, expires_at = Millis 5\<rparr>, Finally 0]
        (Users_new :: (string, UserData) Users))) = [Awaits 1, Awaits 1] \<and>
   invoked (snd (get_all ''t'' [6, 9]
     (run [Get ''t'' 0, Resolve 0 \<lparr>created_at = Millis 0, expires_at = Millis 5\<rparr>, Finally 0]
        (Users_new :: (string, UserData) Users)))) = [''t'', ''t'']"
  using get_expired_reloads[where nows = "[6, 9]" and tok = "''t''" and
      existing = "\<lparr>created_at = Millis 0, expires_at = Millis 5\<rparr>" and
      evs = "[Get ''t'' 0, Resolve 0 \<lparr>created_at = Millis 0, expires_at = Millis 5\<rparr>, Finally 0]
               :: (string, UserData) event list"]
  by (simp add: get_def get_miss_def then_cb_def finally_cb_def Users_new_def)

section \<open>A loader that rejects\<close>

lemma get_miss_frame:
  "users (snd (get_miss tok s)) = users s"
  by (simp add: get_miss_def Let_def split: option.splits)

lemma get_users: "users (snd (get tok now s)) = users s"
  by (simp add: get_def get_miss_frame split: option.splits)

lemma get_miss_chain_old:
  "chain s p = Some x \<Longrightarrow> registered s \<Longrightarrow> chain (snd (get_miss tok s)) p = Some x"
  using chain_lt[of s p x]
  by (auto simp add: get_miss_def Let_def split: option.splits)

lemma get_chain_old:
  "chain s p = Some x \<Longrightarrow> registered s \<Longrightarrow> chain (snd (get tok now s)) p = Some x"
  by (simp add: get_def get_miss_chain_old split: option.splits)

lemma loading_step:
  assumes r: "registered s" and c: "chain s p = Some (tok, Loading)" and n: "\<not> settles p ev"
  shows "users (step ev s) tok = users s tok \<and> chain (step ev s) p = Some (tok, Loading)"
proof (cases ev)
  case (Get t now)
  then show ?thesis using get_users[of t now s] get_chain_old[OF c r] by simp
next
  case (Resolve q v)
  then have qp: "q \<noteq> p" using n by simp
  have "users (then_cb q v s) tok = users s tok"
  proof (cases "chain s q")
    case None
    then show ?thesis by (simp add: then_cb_def)
  next
    case (Some a)
    obtain t st where a: "a = (t, st)" by (cases a)
    show ?thesis
    proof (cases "st = Loading \<and> t = tok")
      case True
      then have "in_flight s q tok" "in_flight s p tok"
        using Some a c by (simp_all add: in_flight_def)
      then have "q = p" using in_flight_unique[OF r] by blast
      with qp show ?thesis by simp
    next
      case False
      then show ?thesis using Some a by (auto simp: then_cb_def split: load.splits)
    qed
  qed
  moreover have "chain (then_cb q v s) p = Some (tok, Loading)"
    using qp c by (simp add: then_cb_def split: option.splits load.splits prod.splits)
  ultimately show ?thesis using Resolve by simp
next
  case (Reject q e)
  then have qp: "q \<noteq> p" using n by simp
  then show ?thesis using Reject c
    by (simp add: rejected_def split: option.splits load.splits prod.splits)
next
  case (Finally q)
  have "q \<noteq> p \<or> finally_cb q s = s" using c by (auto simp: finally_cb_def)
  then show ?thesis using Finally c
    by (auto simp add: finally_cb_def split: option.splits load.splits prod.splits)
qed

lemma loading_run:
  "registered s \<Longrightarrow> chain s p = Some (tok, Loading) \<Longrightarrow> \<forall>ev\<in>set evs. \<not> settles p ev \<Longrightarrow>
   users (run evs s) tok = users s tok \<and> chain (run evs s) p = Some (tok, Loading)"
proof (induction evs arbitrary: s)
  case Nil
  then show ?case by simp
next
  case (Cons ev evs)
  have 1: "users (step ev s) tok = users s tok \<and> chain (step ev s) p = Some (tok, Loading)"
    using Cons.prems by (intro loading_step) simp_all
  have 2: "registered (step ev s)" using Cons.prems(1) by (rule registered_step)
  show ?case using Cons.IH[OF 2] 1 Cons.prems(3) by simp
qed

lemma settled_step:
  assumes r: "registered s" and c: "chain s p = Some (tok, Settled x)"
  shows "chain (step ev s) p = Some (tok, Settled x)"
proof (cases ev)
  case (Get t now)
  then show ?thesis using get_chain_old[OF c r] by simp
next
  case (Resolve q v)
  then show ?thesis using c by (auto simp add: then_cb_def split: option.splits load.splits prod.splits)
next
  case (Reject q e)
  then show ?thesis using c by (auto simp add: rejected_def split: option.splits load.splits prod.splits)
next
  case (Finally q)
  then show ?thesis using c by (auto simp add: finally_cb_def split: option.splits load.splits prod.splits)
qed

lemma settled_run:
  "registered s \<Longrightarrow> chain s p = Some (tok, Settled x) \<Longrightarrow> chain (run evs s) p = Some (tok, Settled x)"
  by (induction evs arbitrary: s) (simp_all add: settled_step registered_step)

text \<open>
  Claim C4. Let the load \<open>p\<close> of \<open>tok\<close> be in flight in a reachable state \<open>s\<close>, its
  loader still working. While it works, under every schedule, the entry of \<open>tok\<close> in the
  map does not change. When the loader rejects with \<open>e\<close> and the \<^verbatim>\<open>finally\<close> callback
  has run: the pending entry of \<open>tok\<close> is gone; the map of cached entries is exactly the
  one before the rejection (nothing was stored); whoever awaits \<open>p\<close> receives \<open>e\<close>, now and
  at any later time; callers that arrive before the callback (and find no entry to
  serve) are handed the same \<open>p\<close>, hence the same \<open>e\<close>; and a caller that arrives after
  it makes \<open>get\<close> call the loader again, on a new promise.
\<close>

theorem loader_rejection:
  fixes evs :: "('e, 'a UserData_scheme) event list" and p :: pid and e :: 'e
  defines "s \<equiv> run evs Users_new"
  defines "s1 \<equiv> rejected p e (run evs Users_new)"
  defines "s2 \<equiv> finally_cb p (rejected p e (run evs Users_new))"
  assumes c: "chain (run evs Users_new) p = Some (tok, Loading)"
  shows
   "promise s2 tok = None \<and>
    users s2 = users s \<and>
    (\<forall>evs'. (\<forall>ev\<in>set evs'. \<not> settles p ev) \<longrightarrow> users (run evs' s) tok = users s tok) \<and>
    (\<forall>evs'. outcome (run evs' s2) (Awaits p) = Some (Inl e)) \<and>
    (\<forall>now. \<not> cache_hit s tok now \<longrightarrow>
       fst (get tok now s) = Awaits p \<and>
       fst (get tok now s1) = Awaits p \<and>
       fst (get tok now s2) = Awaits (length (invoked s)) \<and>
       invoked (snd (get tok now s2)) = invoked s @ [tok] \<and>
       chain (snd (get tok now s2)) (length (invoked s)) = Some (tok, Loading))"
proof -
  have r: "registered s" unfolding s_def by (rule registered_reachable)
  have c0: "chain s p = Some (tok, Loading)" using c by (simp add: s_def)
  have s1: "s1 = rejected p e s" and s2: "s2 = finally_cb p s1" by (simp_all add: s_def s1_def s2_def)
  have r2: "registered s2" using r by (simp add: s1 s2 registered_rejected registered_finally_cb)
  have c1: "chain s1 p = Some (tok, Chained (Inl e))" using c0 by (simp add: s1 rejected_def)
  have c2: "chain s2 p = Some (tok, Settled (Inl e))" using c1 by (simp add: s2 finally_cb_def)
  have p0: "promise s tok = Some p"
    using registered_promise[OF r, of tok p] in_flight_at[OF c0, of tok] by simp
  have p1: "promise s1 tok = Some p" using p0 c0 by (simp add: s1 rejected_def)
  have p2: "promise s2 tok = None" using c1 by (simp add: s2 finally_cb_def)
  have u1: "users s1 = users s" using c0 by (simp add: s1 rejected_def)
  have u2: "users s2 = users s" using c1 u1 by (simp add: s2 finally_cb_def)
  have i2: "invoked s2 = invoked s" using c0 c1 by (simp add: s2 finally_cb_def s1 rejected_def)
  have o: "outcome (run evs' s2) (Awaits p) = Some (Inl e)" for evs'
    using settled_run[OF r2 c2, of evs'] by (simp add: outcome_def)
  have w: "users (run evs' s) tok = users s tok" if "\<forall>ev\<in>set evs'. \<not> settles p ev" for evs'
    using loading_run[OF r c0 that] by simp
  have g: "fst (get tok now s) = Awaits p \<and> fst (get tok now s1) = Awaits p \<and>
       fst (get tok now s2) = Awaits (length (invoked s)) \<and>
       invoked (snd (get tok now s2)) = invoked s @ [tok] \<and>
       chain (snd (get tok now s2)) (length (invoked s)) = Some (tok, Loading)"
    if m: "\<not> cache_hit s tok now" for now
  proof -
    have m1: "\<not> cache_hit s1 tok now" and m2: "\<not> cache_hit s2 tok now"
      using m cache_hit_users[OF u1] cache_hit_users[OF u2] by simp_all
    show ?thesis
      using get_miss_new(1,4,5)[OF p2] i2
      by (simp add: get_miss_eq[OF m] get_miss_eq[OF m1] get_miss_eq[OF m2]
          get_miss_pending[OF p0] get_miss_pending[OF p1])
  qed
  show ?thesis using p2 u2 o g w by blast
qed

theorem loader_rejection_witness:
  "chain (run [Get ''t'' 0] (Users_new :: (string, UserData) Users)) 0 = Some (''t'', Loading) \<and>
   promise (finally_cb 0 (rejected 0 ''E'' (run [Get ''t'' 0] (Users_new :: (string, UserData) Users)))) ''t''
     = None \<and>
   outcome (finally_cb 0 (rejected 0 ''E'' (run [Get ''t'' 0] (Users_new :: (string, UserData) Users))))
     (Awaits 0) = Some (Inl ''E'') \<and>
   fst (get ''t'' 3 (finally_cb 0 (rejected 0 ''E''
     (run [Get ''t'' 0] (Users_new :: (string, UserData) Users))))) = Awaits 1"
  using loader_rejection[where evs = "[Get ''t'' 0] :: (string, UserData) event list"
      and p = 0 and tok = "''t''" and e = "''E''"]
  by (simp add: get_def get_miss_def rejected_def finally_cb_def outcome_def cache_hit_def
      Users_new_def)

section \<open>The invariant of a session\<close>

lemma session_of_sel:
  "CoralUser.promise (session_of u) = CoralUser.promise u"
  "updated (session_of u) = updated u"
  "announcements (session_of u) = announcements u"
  "friends (session_of u) = friends u"
  "webservices (session_of u) = webservices u"
  "active_event (session_of u) = active_event u"
  "expires_at (session_of u) = expires_at u"
  "created_at (session_of u) = created_at u"
  "nso (session_of u) = nso u"
  "data (session_of u) = data u"
  "refreshes (session_of u) = Map.empty"
  "requests (session_of u) = []"
  by (simp_all add: session_of_def CoralUser.defs UserData.defs)

lemma getter_update: "getter k now s = update k k (ttl_of k) now s"
  by (cases k) (simp_all add: getAnnouncements_def getFriends_def getWebServices_def getActiveEvent_def)

lemma session_ok_promise: "session_ok s \<Longrightarrow> (CoralUser.promise s k = Some p) = refreshing s p k"
  by (simp add: session_ok_def)

lemma session_ok_fresh: "session_ok s \<Longrightarrow> length (requests s) \<le> p \<Longrightarrow> refreshes s p = None"
  by (simp add: session_ok_def)

lemma session_ok_cb: "session_ok s \<Longrightarrow> refreshes s p = Some (k, cb, ph) \<Longrightarrow> cb = k"
  unfolding session_ok_def by blast

lemma refreshes_lt: "session_ok s \<Longrightarrow> refreshes s p = Some x \<Longrightarrow> p < length (requests s)"
  using session_ok_fresh[of s p] by (cases "p < length (requests s)") simp_all

lemma refreshing_upd:
  "refreshes s' = (refreshes s)(p \<mapsto> (k, cb, ph)) \<Longrightarrow>
   refreshing s' q k' = (if q = p then k' = k \<and> pending ph else refreshing s q k')"
  by (auto simp add: refreshing_def)

lemma refreshing_same: "refreshes s' = refreshes s \<Longrightarrow> refreshing s' q k = refreshing s q k"
  by (simp add: refreshing_def)

lemma refreshing_at:
  "refreshes s p = Some (k, cb, ph) \<Longrightarrow> refreshing s p k' = (k' = k \<and> pending ph)"
  by (auto simp add: refreshing_def)

lemma not_refreshing_None: "refreshes s p = None \<Longrightarrow> \<not> refreshing s p k"
  by (simp add: refreshing_def)

lemma session_okI:
  assumes "\<And>k p. (CoralUser.promise s k = Some p) = refreshing s p k"
    and "\<And>p. length (requests s) \<le> p \<Longrightarrow> refreshes s p = None"
    and "\<And>p k cb ph. refreshes s p = Some (k, cb, ph) \<Longrightarrow> cb = k"
  shows "session_ok s"
  unfolding session_ok_def using assms by blast

lemma session_ok_new: "CoralUser.promise u = Map.empty \<Longrightarrow> session_ok (session_of u)"
  by (rule session_okI) (simp_all add: session_of_sel refreshing_def)

lemma update_stale_new:
  assumes "updated s k + ttl < now" and "CoralUser.promise s k = None"
  shows "fst (update k cb ttl now s) = Awaiting (length (requests s))"
    and "CoralUser.promise (snd (update k cb ttl now s)) = (CoralUser.promise s)(k \<mapsto> length (requests s))"
    and "refreshes (snd (update k cb ttl now s)) = (refreshes s)(length (requests s) \<mapsto> (k, cb, Fetching))"
    and "requests (snd (update k cb ttl now s)) = requests s @ [cb]"
  using assms by (simp_all add: update_def Let_def)

lemma update_frame:
  "updated (snd (update k cb ttl now s)) = updated s"
  "stored k' (snd (update k cb ttl now s)) = stored k' s"
  by (cases k'; simp add: update_def Let_def split: option.splits)+

lemma update_stale_pending:
  "updated s k + ttl < now \<Longrightarrow> CoralUser.promise s k = Some p \<Longrightarrow> update k cb ttl now s = (Awaiting p, s)"
  by (simp add: update_def map_upd_triv)

lemma update_fresh:
  "\<not> updated s k + ttl < now \<Longrightarrow> update k cb ttl now s = (NotUpdating, s)"
  by (simp add: update_def)

lemma session_ok_update:
  assumes r: "session_ok s" shows "session_ok (snd (update k k ttl now s))"
proof (cases "updated s k + ttl < now")
  case False
  then show ?thesis using r by (simp add: update_fresh)
next
  case stale: True
  show ?thesis
  proof (cases "CoralUser.promise s k")
    case (Some p)
    then show ?thesis using r stale by (simp add: update_stale_pending)
  next
    case None
    define n where "n = length (requests s)"
    define s' where "s' = snd (update k k ttl now s)"
    have p': "CoralUser.promise s' = (CoralUser.promise s)(k \<mapsto> n)"
      and c': "refreshes s' = (refreshes s)(n \<mapsto> (k, k, Fetching))"
      and i': "requests s' = requests s @ [k]"
      using update_stale_new[OF stale None, of k] by (simp_all add: s'_def n_def)
    have cn: "refreshes s n = None" using r by (simp add: n_def session_ok_fresh)
    show ?thesis unfolding s'_def[symmetric]
    proof (rule session_okI)
      fix t p
      show "(CoralUser.promise s' t = Some p) = refreshing s' p t"
      proof (cases "p = n")
        case True
        have "CoralUser.promise s t \<noteq> Some n"
          using session_ok_promise[OF r, of t n] not_refreshing_None[OF cn, of t] by simp
        then show ?thesis using True p' refreshing_upd[OF c', of p t] by auto
      next
        case False
        have "\<not> refreshing s p k"
          using session_ok_promise[OF r, of k p] None by simp
        then show ?thesis
          using False p' refreshing_upd[OF c', of p t] session_ok_promise[OF r, of t p]
          by (cases "t = k") auto
      qed
    next
      fix p assume "length (requests s') \<le> p"
      then show "refreshes s' p = None"
        using session_ok_fresh[OF r, of p] by (simp add: i' c' n_def)
    next
      fix p k' cb ph assume "refreshes s' p = Some (k', cb, ph)"
      then show "cb = k'"
        using session_ok_cb[OF r, of p k' cb ph] by (auto simp add: c' split: if_splits)
    qed
  qed
qed

lemma session_ok_getter: "session_ok s \<Longrightarrow> session_ok (snd (getter k now s))"
  by (simp add: getter_update session_ok_update)

text \<open>A step that moves a pending refresh to another pending phase and leaves the
  pending map and the log alone keeps the invariant.\<close>

lemma session_ok_phase:
  assumes r: "session_ok s" and c: "refreshes s p = Some (k, cb, ph)" and pe: "pending ph"
    and c': "refreshes s' = (refreshes s)(p \<mapsto> (k, cb, ph'))" and pe': "pending ph'"
    and p': "CoralUser.promise s' = CoralUser.promise s" and i': "requests s' = requests s"
  shows "session_ok s'"
proof (rule session_okI)
  fix t q
  show "(CoralUser.promise s' t = Some q) = refreshing s' q t"
    using session_ok_promise[OF r, of t q] refreshing_upd[OF c', of q t]
      refreshing_at[OF c, of t] p' pe pe'
    by auto
next
  fix q assume "length (requests s') \<le> q"
  then show "refreshes s' q = None"
    using session_ok_fresh[OF r, of q] refreshes_lt[OF r c] by (simp add: i' c')
next
  fix q k' cb' ph'' assume "refreshes s' q = Some (k', cb', ph'')"
  then show "cb' = k'"
    using session_ok_cb[OF r, of q k' cb' ph''] session_ok_cb[OF r c]
    by (auto simp add: c' split: if_splits)
qed

lemma assign_frame:
  "CoralUser.promise (assign r s) = CoralUser.promise s" "requests (assign r s) = requests s"
  "refreshes (assign r s) = refreshes s" "updated (assign r s) = updated s"
  by (cases r; simp)+

lemma session_ok_callback_resumes:
  assumes r: "session_ok s" shows "session_ok (callback_resumes p x s)"
proof (cases "\<exists>k cb. refreshes s p = Some (k, cb, Fetching) \<and> answers x = cb")
  case True
  then obtain k cb where c: "refreshes s p = Some (k, cb, Fetching)" and a: "answers x = cb"
    by blast
  show ?thesis
    by (rule session_ok_phase[OF r c, of _ Assigned])
       (simp_all add: callback_resumes_def c a assign_frame)
next
  case False
  then have "callback_resumes p x s = s"
    by (auto simp: callback_resumes_def split: option.splits refresh.splits)
  then show ?thesis using r by simp
qed

lemma session_ok_callback_throws:
  assumes r: "session_ok s" shows "session_ok (callback_throws p e s)"
proof (cases "\<exists>k cb. refreshes s p = Some (k, cb, Fetching)")
  case True
  then obtain k cb where c: "refreshes s p = Some (k, cb, Fetching)" by blast
  show ?thesis
    by (rule session_ok_phase[OF r c, of _ "Failed e"]) (simp_all add: callback_throws_def c)
next
  case False
  then have "callback_throws p e s = s"
    by (auto simp: callback_throws_def split: option.splits refresh.splits)
  then show ?thesis using r by simp
qed

lemma session_ok_update_then_cb:
  assumes r: "session_ok s" shows "session_ok (update_then_cb p now s)"
proof (cases "\<exists>k cb. refreshes s p = Some (k, cb, Assigned)")
  case True
  then obtain k cb where c: "refreshes s p = Some (k, cb, Assigned)" by blast
  show ?thesis
    by (rule session_ok_phase[OF r c, of _ Stamped]) (simp_all add: update_then_cb_def c)
next
  case False
  then have "update_then_cb p now s = s"
    by (auto simp: update_then_cb_def split: option.splits refresh.splits)
  then show ?thesis using r by simp
qed

lemma session_ok_settle:
  assumes r: "session_ok s" and c: "refreshes s p = Some (k, cb, ph)" and pe: "pending ph"
    and c': "refreshes s' = (refreshes s)(p \<mapsto> (k, cb, Finished x))"
    and p': "CoralUser.promise s' = (CoralUser.promise s)(k := None)" and i': "requests s' = requests s"
  shows "session_ok s'"
proof (rule session_okI)
  fix t q
  have pr: "CoralUser.promise s k = Some p"
    using session_ok_promise[OF r, of k p] refreshing_at[OF c, of k] pe by simp
  show "(CoralUser.promise s' t = Some q) = refreshing s' q t"
    using session_ok_promise[OF r, of t q] refreshing_upd[OF c', of q t]
      refreshing_at[OF c, of t] p' pr session_ok_promise[OF r, of k q]
    by (cases "t = k"; cases "q = p") auto
next
  fix q assume "length (requests s') \<le> q"
  then show "refreshes s' q = None"
    using session_ok_fresh[OF r, of q] refreshes_lt[OF r c] by (simp add: i' c')
next
  fix q k' cb' ph'' assume "refreshes s' q = Some (k', cb', ph'')"
  then show "cb' = k'"
    using session_ok_cb[OF r, of q k' cb' ph''] session_ok_cb[OF r c]
    by (auto simp add: c' split: if_splits)
qed

lemma session_ok_update_finally_cb:
  assumes r: "session_ok s" shows "session_ok (update_finally_cb p s)"
proof (cases "refreshes s p")
  case None
  then show ?thesis using r by (simp add: update_finally_cb_def)
next
  case (Some a)
  obtain k cb ph where a: "a = (k, cb, ph)" by (cases a)
  have c: "refreshes s p = Some (k, cb, ph)" using Some a by simp
  show ?thesis
  proof (cases ph)
    case Stamped
    show ?thesis
      by (rule session_ok_settle[OF r c, of _ None]) (simp_all add: update_finally_cb_def c Stamped)
  next
    case (Failed e)
    show ?thesis
      by (rule session_ok_settle[OF r c, of _ "Some e"]) (simp_all add: update_finally_cb_def c Failed)
  qed (use r c in \<open>simp_all add: update_finally_cb_def\<close>)
qed

lemma session_ok_step: "session_ok s \<Longrightarrow> session_ok (session_step ev s)"
  by (cases ev)
     (simp_all add: session_ok_getter session_ok_callback_resumes session_ok_callback_throws
        session_ok_update_then_cb session_ok_update_finally_cb)

lemma session_ok_run: "session_ok s \<Longrightarrow> session_ok (session_run evs s)"
  by (induction evs arbitrary: s) (simp_all add: session_ok_step)

section \<open>When a getter refreshes\<close>

lemma getter_fresh:
  "now - updated s k \<le> ttl_of k \<Longrightarrow> getter k now s = (NotUpdating, s)"
  by (simp add: getter_update update_def)

lemma getter_stale_pending:
  "ttl_of k < now - updated s k \<Longrightarrow> CoralUser.promise s k = Some p \<Longrightarrow> getter k now s = (Awaiting p, s)"
  by (simp add: getter_update update_stale_pending)

lemma getter_frame:
  "updated (snd (getter k now s)) = updated s"
  "stored k' (snd (getter k now s)) = stored k' s"
  by (simp_all add: getter_update update_frame)

lemma getter_stale_new:
  assumes "ttl_of k < now - updated s k" and "CoralUser.promise s k = None"
  shows "fst (getter k now s) = Awaiting (length (requests s))"
    and "CoralUser.promise (snd (getter k now s)) = (CoralUser.promise s)(k \<mapsto> length (requests s))"
    and "refreshes (snd (getter k now s)) = (refreshes s)(length (requests s) \<mapsto> (k, k, Fetching))"
    and "requests (snd (getter k now s)) = requests s @ [k]"
proof -
  have st: "updated s k + ttl_of k < now" using assms(1) by simp
  show "fst (getter k now s) = Awaiting (length (requests s))"
    and "CoralUser.promise (snd (getter k now s)) = (CoralUser.promise s)(k \<mapsto> length (requests s))"
    and "refreshes (snd (getter k now s)) = (refreshes s)(length (requests s) \<mapsto> (k, k, Fetching))"
    and "requests (snd (getter k now s)) = requests s @ [k]"
    using update_stale_new[OF st assms(2), of k] by (simp_all add: getter_update)
qed

lemma getter_all_pending:
  "CoralUser.promise s k = Some p \<Longrightarrow> \<forall>now\<in>set nows. ttl_of k < now - updated s k \<Longrightarrow>
   getter_all k nows s = (map (\<lambda>_. Awaiting p) nows, s)"
  by (induction nows) (simp_all add: getter_stale_pending)

lemma getter_all_new:
  assumes n: "CoralUser.promise s k = None" and m: "\<forall>now\<in>set nows. ttl_of k < now - updated s k"
    and ne: "nows \<noteq> []"
  shows "getter_all k nows s =
    (map (\<lambda>_. Awaiting (length (requests s))) nows, snd (getter k (hd nows) s))"
proof (cases nows)
  case Nil
  with ne show ?thesis by simp
next
  case (Cons now rest)
  let ?s' = "snd (getter k now s)"
  have st: "ttl_of k < now - updated s k" using m Cons by simp
  have g: "fst (getter k now s) = Awaiting (length (requests s))"
    by (rule getter_stale_new(1)[OF st n])
  have "CoralUser.promise ?s' k = Some (length (requests s))"
    by (simp add: getter_stale_new(2)[OF st n])
  moreover have "\<forall>t\<in>set rest. ttl_of k < t - updated ?s' k"
    using m Cons getter_frame(1)[of k now s] by simp
  ultimately have h: "getter_all k rest ?s' = (map (\<lambda>_. Awaiting (length (requests s))) rest, ?s')"
    by (rule getter_all_pending)
  show ?thesis unfolding Cons by (simp add: split_beta g h)
qed

text \<open>
  Claim C5, as stated, fails at the boundary: line 100 refreshes when
  \<^verbatim>\<open>this.updated[key] + ttl < Date.now()\<close>, so when exactly \<open>ttl\<close> has passed
  (\<open>now - last_updated = ttl\<close>) the getter does not refresh. Here the friend list was
  last updated at 0 and its getter, whose time to live is 10000, is called at 10000: no
  promise is awaited and no request is sent.
\<close>

theorem getter_at_ttl_counterexample:
  "updated (session_of (CoralUser_new 0 (\<lambda>k. 0) ''nso'' ''data'' \<lparr>result = ''a1''\<rparr>
        \<lparr>result = \<lparr>Friends.friends = ''f1''\<rparr>\<rparr> \<lparr>result = ''w1''\<rparr> \<lparr>result = ''v1''\<rparr>)
      :: (string, string, string, string, string, string, string) session) friends_key = 0 \<and>
   (10000 :: int) - 0 \<ge> ttl_of friends_key \<and>
   fst (getter friends_key 10000
     (session_of (CoralUser_new 0 (\<lambda>k. 0) ''nso'' ''data'' \<lparr>result = ''a1''\<rparr>
        \<lparr>result = \<lparr>Friends.friends = ''f1''\<rparr>\<rparr> \<lparr>result = ''w1''\<rparr> \<lparr>result = ''v1''\<rparr>)
      :: (string, string, string, string, string, string, string) session)) = NotUpdating \<and>
   requests (snd (getter friends_key 10000
     (session_of (CoralUser_new 0 (\<lambda>k. 0) ''nso'' ''data'' \<lparr>result = ''a1''\<rparr>
        \<lparr>result = \<lparr>Friends.friends = ''f1''\<rparr>\<rparr> \<lparr>result = ''w1''\<rparr> \<lparr>result = ''v1''\<rparr>)
      :: (string, string, string, string, string, string, string) session))) = []"
  by (simp add: getFriends_def update_def session_of_sel CoralUser_new_def)

text \<open>
  Claim C5, amended. For every key \<open>k\<close> and every session:
  \<^item> the getter of \<open>k\<close> skips the refresh exactly when \<open>now - last_updated \<le> ttl\<close>, and
    awaits one exactly when \<open>now - last_updated > ttl\<close>;
  \<^item> when it skips, the session is left as it was: no request is sent and
    \<open>updated\<close> is not written;
  \<^item> when one or more callers call the getter at times more than \<open>ttl\<close> after
    \<open>last_updated\<close>, before anything settles, all of them await the same promise, and
    exactly one request serves them: one is sent when no refresh of \<open>k\<close> was pending,
    none when one was (the callers then join it).
\<close>

theorem getter_refresh_iff:
  "(fst (getter k now s) = NotUpdating \<longleftrightarrow> now - updated s k \<le> ttl_of k) \<and>
   (now - updated s k \<le> ttl_of k \<longrightarrow> getter k now s = (NotUpdating, s)) \<and>
   (nows \<noteq> [] \<and> (\<forall>t\<in>set nows. ttl_of k < t - updated s k) \<longrightarrow>
      (\<exists>p. fst (getter_all k nows s) = map (\<lambda>_. Awaiting p) nows \<and>
           CoralUser.promise (snd (getter_all k nows s)) k = Some p \<and>
           requests (snd (getter_all k nows s)) =
             requests s @ (if CoralUser.promise s k = None then [k] else []) \<and>
           updated (snd (getter_all k nows s)) = updated s))"
proof -
  have a: "fst (getter k now s) = NotUpdating \<longleftrightarrow> now - updated s k \<le> ttl_of k"
    by (auto simp add: getter_update update_def Let_def split: option.splits)
  have b: "now - updated s k \<le> ttl_of k \<longrightarrow> getter k now s = (NotUpdating, s)"
    by (simp add: getter_fresh)
  have c: "\<exists>p. fst (getter_all k nows s) = map (\<lambda>_. Awaiting p) nows \<and>
           CoralUser.promise (snd (getter_all k nows s)) k = Some p \<and>
           requests (snd (getter_all k nows s)) =
             requests s @ (if CoralUser.promise s k = None then [k] else []) \<and>
           updated (snd (getter_all k nows s)) = updated s"
    if ne: "nows \<noteq> []" and m: "\<forall>t\<in>set nows. ttl_of k < t - updated s k"
  proof (cases "CoralUser.promise s k")
    case None
    have st: "ttl_of k < hd nows - updated s k" using ne m by simp
    show ?thesis
      using getter_all_new[OF None m ne] getter_stale_new(2,4)[OF st None] getter_frame(1)[of k "hd nows" s] None by simp
  next
    case (Some p)
    show ?thesis using getter_all_pending[OF Some m] Some by simp
  qed
  show ?thesis using a b c by blast
qed

theorem getter_refresh_iff_witness:
  "getter friends_key 5000
     (session_of (CoralUser_new 0 (\<lambda>k. 0) ''nso'' ''data'' \<lparr>result = ''a1''\<rparr>
        \<lparr>result = \<lparr>Friends.friends = ''f1''\<rparr>\<rparr> \<lparr>result = ''w1''\<rparr> \<lparr>result = ''v1''\<rparr>)
      :: (string, string, string, string, string, string, string) session)
   = (NotUpdating,
      session_of (CoralUser_new 0 (\<lambda>k. 0) ''nso'' ''data'' \<lparr>result = ''a1''\<rparr>
        \<lparr>result = \<lparr>Friends.friends = ''f1''\<rparr>\<rparr> \<lparr>result = ''w1''\<rparr> \<lparr>result = ''v1''\<rparr>)) \<and>
   (\<exists>p. fst (getter_all friends_key [11000, 11001]
     (session_of (CoralUser_new 0 (\<lambda>k. 0) ''nso'' ''data'' \<lparr>result = ''a1''\<rparr>
        \<lparr>result = \<lparr>Friends.friends = ''f1''\<rparr>\<rparr> \<lparr>result = ''w1''\<rparr> \<lparr>result = ''v1''\<rparr>)
      :: (string, string, string, string, string, string, string) session))
     = [Awaiting p, Awaiting p] \<and>
    requests (snd (getter_all friends_key [11000, 11001]
     (session_of (CoralUser_new 0 (\<lambda>k. 0) ''nso'' ''data'' \<lparr>result = ''a1''\<rparr>
        \<lparr>result = \<lparr>Friends.friends = ''f1''\<rparr>\<rparr> \<lparr>result = ''w1''\<rparr> \<lparr>result = ''v1''\<rparr>)
      :: (string, string, string, string, string, string, string) session)))
     = [friends_key])"
proof -
  define s :: "(string, string, string, string, string, string, string) session"
    where "s = session_of (CoralUser_new 0 (\<lambda>k. 0) ''nso'' ''data'' \<lparr>result = ''a1''\<rparr>
        \<lparr>result = \<lparr>Friends.friends = ''f1''\<rparr>\<rparr> \<lparr>result = ''w1''\<rparr> \<lparr>result = ''v1''\<rparr>)"
  have u: "updated s friends_key = 0" and q: "requests s = []"
    and pr: "CoralUser.promise s friends_key = None"
    by (simp_all add: s_def session_of_sel CoralUser_new_def)
  have a: "5000 - updated s friends_key \<le> ttl_of friends_key" by (simp add: u)
  have b: "[11000, 11001 :: int] \<noteq> [] \<and>
      (\<forall>t\<in>set [11000, 11001]. ttl_of friends_key < t - updated s friends_key)"
    by (simp add: u)
  note t = getter_refresh_iff[where k = friends_key and now = 5000 and
      nows = "[11000, 11001]" and s = s]
  have 1: "getter friends_key 5000 s = (NotUpdating, s)" using t a by blast
  obtain p where 2: "fst (getter_all friends_key [11000, 11001] s) =
        map (\<lambda>_. Awaiting p) [11000, 11001 :: int]"
    and 3: "requests (snd (getter_all friends_key [11000, 11001] s)) =
        requests s @ (if CoralUser.promise s friends_key = None then [friends_key] else [])"
    using t b by blast
  have "fst (getter_all friends_key [11000, 11001] s) = [Awaiting p, Awaiting p]"
    using 2 by simp
  moreover have "requests (snd (getter_all friends_key [11000, 11001] s)) = [friends_key]"
    using 3 by (simp add: q pr)
  ultimately show ?thesis using 1 unfolding s_def by blast
qed


section \<open>A new session object is fresh\<close>

lemma stored_assign: "answers r \<noteq> k \<Longrightarrow> stored k (assign r s) = stored k s"
  by (cases r; cases k) simp_all

lemma stored_upd:
  "stored k (s\<lparr>refreshes := x\<rparr>) = stored k s"
  "stored k (s\<lparr>CoralUser.promise := y\<rparr>) = stored k s"
  "stored k (s\<lparr>updated := z\<rparr>) = stored k s"
  "stored k (s\<lparr>requests := w\<rparr>) = stored k s"
  by (cases k; simp)+

lemma untouched_getter_other:
  assumes u: "untouched s k" and ne: "k' \<noteq> k"
  shows "untouched (snd (getter k' now s)) k"
proof (cases "ttl_of k' < now - updated s k'")
  case False
  then show ?thesis using u by (simp add: getter_fresh)
next
  case st: True
  show ?thesis
  proof (cases "CoralUser.promise s k'")
    case (Some p)
    then show ?thesis using u st by (simp add: getter_stale_pending)
  next
    case None
    show ?thesis using u ne getter_stale_new(2,3,4)[OF st None]
      by (auto simp add: untouched_def split: if_splits)
  qed
qed

lemma untouched_step:
  assumes u: "untouched s k" and g: "\<forall>now. ev = Getter k now \<longrightarrow> now - updated s k \<le> ttl_of k"
  shows "untouched (session_step ev s) k \<and> updated (session_step ev s) k = updated s k \<and>
         stored k (session_step ev s) = stored k s"
proof (cases ev)
  case (Getter k' now)
  show ?thesis
  proof (cases "k' = k")
    case True
    then show ?thesis using u g Getter by (simp add: getter_fresh)
  next
    case False
    then show ?thesis using untouched_getter_other[OF u False] Getter by (simp add: getter_frame)
  qed
next
  case (Response p r)
  show ?thesis
  proof (cases "\<exists>k' cb. refreshes s p = Some (k', cb, Fetching) \<and> answers r = cb")
    case True
    then obtain k' cb where c: "refreshes s p = Some (k', cb, Fetching)" and a: "answers r = cb"
      by blast
    have n: "k' \<noteq> k" "cb \<noteq> k" using u c by (auto simp: untouched_def)
    have "stored k (callback_resumes p r s) = stored k s"
      using n a by (simp add: callback_resumes_def c stored_upd stored_assign)
    moreover have "untouched (callback_resumes p r s) k"
      using u n a c by (auto simp add: untouched_def callback_resumes_def assign_frame)
    moreover have "updated (callback_resumes p r s) k = updated s k"
      using a by (simp add: callback_resumes_def c assign_frame)
    ultimately show ?thesis using Response by simp
  next
    case False
    then have "callback_resumes p r s = s"
      by (auto simp: callback_resumes_def split: option.splits refresh.splits)
    then show ?thesis using u Response by simp
  qed
next
  case (Failure p e)
  show ?thesis using u Failure
    by (auto simp add: untouched_def callback_throws_def stored_upd
        split: option.splits refresh.splits prod.splits if_splits)
next
  case (Then p now)
  show ?thesis using u Then
    by (auto simp add: untouched_def update_then_cb_def stored_upd
        split: option.splits refresh.splits prod.splits if_splits)
next
  case (Cleanup p)
  show ?thesis using u Cleanup
    by (auto simp add: untouched_def update_finally_cb_def stored_upd
        split: option.splits refresh.splits prod.splits if_splits)
qed

lemma untouched_run:
  "untouched s k \<Longrightarrow> \<forall>now. Getter k now \<in> set evs \<longrightarrow> now - updated s k \<le> ttl_of k \<Longrightarrow>
   untouched (session_run evs s) k \<and> updated (session_run evs s) k = updated s k \<and>
   stored k (session_run evs s) = stored k s"
proof (induction evs arbitrary: s)
  case Nil
  then show ?case by simp
next
  case (Cons ev evs)
  have 1: "untouched (session_step ev s) k \<and> updated (session_step ev s) k = updated s k \<and>
         stored k (session_step ev s) = stored k s"
    using Cons.prems by (intro untouched_step) auto
  have 2: "\<forall>now. Getter k now \<in> set evs \<longrightarrow> now - updated (session_step ev s) k \<le> ttl_of k"
    using Cons.prems(2) 1 by simp
  show ?case using Cons.IH[OF _ 2] 1 by simp
qed

lemma untouched_new: "untouched (session_of (CoralUser_new tc tu n d a f w v)) k"
  by (simp add: untouched_def session_of_sel CoralUser_new_def)

text \<open>
  Claim C10. The constructor sets \<open>created_at\<close> and, for each key, \<open>updated\<close> to
  readings of the clock taken during construction (\<open>tc\<close> and \<open>tu k\<close>; one and the same
  value when the clock does not tick meanwhile). Take any schedule of events on the new
  session in which every call so far of the getter of \<open>k\<close> came within the time to live
  of \<open>k\<close> after \<open>tu k\<close>; the other getters may have been called at any time and their
  refreshes may be at any stage. Then a call of the getter of \<open>k\<close>, again within the time
  to live, skips the refresh and leaves the session as it is, no request for \<open>k\<close> has
  ever been sent, the raw value stored for \<open>k\<close> is the one the constructor was given,
  and the getter returns the value derived from it.
\<close>

theorem constructed_fresh:
  fixes evs :: "('a, 'f, 'w, 'v, 'e) session_event list"
    and s0 :: "('n, 'd, 'a, 'f, 'w, 'v, 'e) session"
    and tc :: int and tu :: "key \<Rightarrow> int" and n :: 'n and d :: 'd
    and a :: "'a ZncSuccessResponse" and f :: "'f Friends ZncSuccessResponse"
    and w :: "'w ZncSuccessResponse" and v :: "'v ZncSuccessResponse"
  defines "s0 \<equiv> session_of (CoralUser_new tc tu n d a f w v)"
  assumes calls: "\<forall>t. Getter k t \<in> set evs \<longrightarrow> t - tu k \<le> ttl_of k"
    and now: "now - tu k \<le> ttl_of k"
  shows "created_at s0 = Millis tc \<and> updated s0 = tu \<and>
     getter k now (session_run evs s0) = (NotUpdating, session_run evs s0) \<and>
     k \<notin> set (requests (session_run evs s0)) \<and>
     stored k (session_run evs s0) = stored k s0 \<and>
     updated (session_run evs s0) k = tu k \<and>
     (k = announcements_key \<longrightarrow> getAnnouncements_value (session_run evs s0) = result a) \<and>
     (k = friends_key \<longrightarrow> getFriends_value (session_run evs s0) = Friends.friends (result f)) \<and>
     (k = webservices_key \<longrightarrow> getWebServices_value (session_run evs s0) = result w) \<and>
     (k = active_event_key \<longrightarrow> getActiveEvent_value (session_run evs s0) = result v)"
proof -
  have u0: "updated s0 = tu" and c0: "created_at s0 = Millis tc"
    by (simp_all add: s0_def session_of_sel CoralUser_new_def)
  have un: "untouched s0 k" unfolding s0_def by (rule untouched_new)
  have "\<forall>t. Getter k t \<in> set evs \<longrightarrow> t - updated s0 k \<le> ttl_of k" using calls u0 by simp
  from untouched_run[OF un this]
  have r: "untouched (session_run evs s0) k" and up: "updated (session_run evs s0) k = tu k"
    and st: "stored k (session_run evs s0) = stored k s0"
    using u0 by simp_all
  have g: "getter k now (session_run evs s0) = (NotUpdating, session_run evs s0)"
    using now up by (simp add: getter_fresh)
  have rq: "k \<notin> set (requests (session_run evs s0))" using r by (simp add: untouched_def)
  have v1: "getAnnouncements_value (session_run evs s0) = result a" if "k = announcements_key"
    using st that by (simp add: getAnnouncements_value_def s0_def session_of_sel CoralUser_new_def)
  have v2: "getFriends_value (session_run evs s0) = Friends.friends (result f)" if "k = friends_key"
    using st that by (simp add: getFriends_value_def s0_def session_of_sel CoralUser_new_def)
  have v3: "getWebServices_value (session_run evs s0) = result w" if "k = webservices_key"
    using st that by (simp add: getWebServices_value_def s0_def session_of_sel CoralUser_new_def)
  have v4: "getActiveEvent_value (session_run evs s0) = result v" if "k = active_event_key"
    using st that by (simp add: getActiveEvent_value_def s0_def session_of_sel CoralUser_new_def)
  show ?thesis using u0 c0 g rq st up v1 v2 v3 v4 by blast
qed

theorem constructed_fresh_witness:
  "getter announcements_key 1800000
     (session_run [Getter friends_key 20000, Getter announcements_key 7]
       (session_of (CoralUser_new 0 (\<lambda>k. 0) ''nso'' ''data'' \<lparr>result = ''a1''\<rparr>
        \<lparr>result = \<lparr>Friends.friends = ''f1''\<rparr>\<rparr> \<lparr>result = ''w1''\<rparr> \<lparr>result = ''v1''\<rparr>)
      :: (string, string, string, string, string, string, string) session))
   = (NotUpdating, session_run [Getter friends_key 20000, Getter announcements_key 7]
       (session_of (CoralUser_new 0 (\<lambda>k. 0) ''nso'' ''data'' \<lparr>result = ''a1''\<rparr>
        \<lparr>result = \<lparr>Friends.friends = ''f1''\<rparr>\<rparr> \<lparr>result = ''w1''\<rparr> \<lparr>result = ''v1''\<rparr>))) \<and>
   getAnnouncements_value (session_run [Getter friends_key 20000, Getter announcements_key 7]
       (session_of (CoralUser_new 0 (\<lambda>k. 0) ''nso'' ''data'' \<lparr>result = ''a1''\<rparr>
        \<lparr>result = \<lparr>Friends.friends = ''f1''\<rparr>\<rparr> \<lparr>result = ''w1''\<rparr> \<lparr>result = ''v1''\<rparr>)
      :: (string, string, string, string, string, string, string) session)) = ''a1''"
proof -
  note t = constructed_fresh[where k = announcements_key and now = 1800000 and
     evs = "[Getter friends_key 20000, Getter announcements_key 7]
        :: (string, string, string, string, string) session_event list" and
     tc = 0 and tu = "\<lambda>k. 0" and n = "''nso''" and d = "''data''" and a = "\<lparr>result = ''a1''\<rparr>" and
     f = "\<lparr>result = \<lparr>Friends.friends = ''f1''\<rparr>\<rparr>" and w = "\<lparr>result = ''w1''\<rparr>" and
     v = "\<lparr>result = ''v1''\<rparr>"]
  have h1: "\<forall>t. Getter announcements_key t \<in>
      set ([Getter friends_key 20000, Getter announcements_key 7]
        :: (string, string, string, string, string) session_event list) \<longrightarrow>
      t - (\<lambda>k. 0) announcements_key \<le> ttl_of announcements_key"
    by simp
  have h2: "(1800000 :: int) - (\<lambda>k. 0) announcements_key \<le> ttl_of announcements_key" by simp
  show ?thesis using t[OF h1 h2] by simp
qed


section \<open>Fields do not interfere\<close>

lemma refreshing_unique:
  "session_ok s \<Longrightarrow> refreshing s p k \<Longrightarrow> refreshing s q k \<Longrightarrow> p = q"
  using session_ok_promise[of s k p] session_ok_promise[of s k q] by simp

lemma getter_refreshes_old:
  assumes r: "session_ok s" and c: "refreshes s p = Some x"
  shows "refreshes (snd (getter k now s)) p = Some x"
proof -
  have "p < length (requests s)" using r c by (rule refreshes_lt)
  then show ?thesis using c
    by (auto simp add: getter_update update_def Let_def split: option.splits)
qed

lemma step_frame:
  assumes r: "session_ok s" and o: "event_key s ev \<noteq> Some B"
  shows "stored B (session_step ev s) = stored B s \<and>
         updated (session_step ev s) B = updated s B \<and>
         CoralUser.promise (session_step ev s) B = CoralUser.promise s B"
proof (cases ev)
  case (Getter k now)
  then have "k \<noteq> B" using o by auto
  then have "CoralUser.promise (snd (getter k now s)) B = CoralUser.promise s B"
    by (auto simp add: getter_update update_def Let_def split: option.splits)
  then show ?thesis using Getter by (simp add: getter_frame)
next
  case (Response p x)
  show ?thesis
  proof (cases "\<exists>k cb. refreshes s p = Some (k, cb, Fetching) \<and> answers x = cb")
    case True
    then obtain k cb where c: "refreshes s p = Some (k, cb, Fetching)" and a: "answers x = cb"
      by blast
    have "cb = k" using r c by (rule session_ok_cb)
    moreover have "k \<noteq> B" using o Response c by auto
    ultimately show ?thesis using Response c a
      by (simp add: callback_resumes_def stored_upd stored_assign assign_frame)
  next
    case False
    then have "callback_resumes p x s = s"
      by (auto simp: callback_resumes_def split: option.splits refresh.splits)
    then show ?thesis using Response by simp
  qed
next
  case (Failure p e)
  then show ?thesis
    by (auto simp add: callback_throws_def stored_upd split: option.splits refresh.splits prod.splits)
next
  case (Then p now)
  then show ?thesis using o
    by (auto simp add: update_then_cb_def stored_upd split: option.splits refresh.splits prod.splits)
next
  case (Cleanup p)
  then show ?thesis using o
    by (auto simp add: update_finally_cb_def stored_upd split: option.splits refresh.splits prod.splits)
qed

lemma getter_same_decision:
  assumes "updated s' B = updated s B" and "CoralUser.promise s' B = CoralUser.promise s B"
  shows "(fst (getter B now s') = NotUpdating) = (fst (getter B now s) = NotUpdating)"
    and "drop (length (requests s')) (requests (snd (getter B now s'))) =
         drop (length (requests s)) (requests (snd (getter B now s)))"
  using assms by (auto simp add: getter_update update_def Let_def split: option.splits)

lemma getter_awaits_registered:
  "fst (getter B now s) = Awaiting p \<Longrightarrow> CoralUser.promise (snd (getter B now s)) B = Some p"
  by (auto simp add: getter_update update_def Let_def split: option.splits if_splits)

lemma getter_awaits_own:
  assumes r: "session_ok s" and g: "fst (getter B now s) = Awaiting p"
  shows "refreshing (snd (getter B now s)) p B"
  using session_ok_promise[OF session_ok_getter[OF r, of B now], of B p]
    getter_awaits_registered[OF g] by simp

lemma refreshing_key: "refreshing s p A \<Longrightarrow> refreshing s p B \<Longrightarrow> A = B"
  by (auto simp: refreshing_def split: option.splits)

lemma session_ok_reachable:
  "session_ok (session_run evs (session_of (CoralUser_new tc tu n d a f w v)))"
  by (rule session_ok_run, rule session_ok_new) (simp add: CoralUser_new_def)

text \<open>
  Claim C7. In any reachable session, take any event that does not belong to key \<open>B\<close>: a
  call of another getter, or a step of a refresh registered under another key (its
  response, its failure, its \<^verbatim>\<open>then\<close> or \<^verbatim>\<open>finally\<close> callback). The event leaves
  the raw value stored for \<open>B\<close>, \<open>updated[B]\<close> and the pending entry of \<open>B\<close> as they
  were. The getter of \<open>B\<close> decides as it would have without the event: it skips or
  awaits alike and sends the same request, if any. And whenever the getter of \<open>B\<close> awaits
  a promise, that promise is a refresh registered under \<open>B\<close>, never one of another key:
  a refresh in progress for another field does not hold it up.
\<close>

theorem refresh_frame:
  fixes evs :: "('a, 'f, 'w, 'v, 'e) session_event list"
    and s s' :: "('n, 'd, 'a, 'f, 'w, 'v, 'e) session"
    and tc :: int and tu :: "key \<Rightarrow> int" and n :: 'n and d :: 'd
    and a :: "'a ZncSuccessResponse" and f :: "'f Friends ZncSuccessResponse"
    and w :: "'w ZncSuccessResponse" and v :: "'v ZncSuccessResponse"
    and ev :: "('a, 'f, 'w, 'v, 'e) session_event"
  defines "s \<equiv> session_run evs (session_of (CoralUser_new tc tu n d a f w v))"
  defines "s' \<equiv> session_step ev (session_run evs (session_of (CoralUser_new tc tu n d a f w v)))"
  assumes other:
    "event_key (session_run evs (session_of (CoralUser_new tc tu n d a f w v)) ::
        ('n, 'd, 'a, 'f, 'w, 'v, 'e) session) ev \<noteq> Some B"
  shows "stored B s' = stored B s \<and> updated s' B = updated s B \<and> CoralUser.promise s' B = CoralUser.promise s B \<and>
     (\<forall>now. (fst (getter B now s') = NotUpdating) = (fst (getter B now s) = NotUpdating)) \<and>
     (\<forall>now. drop (length (requests s')) (requests (snd (getter B now s'))) =
            drop (length (requests s)) (requests (snd (getter B now s)))) \<and>
     (\<forall>now p. fst (getter B now s') = Awaiting p \<longrightarrow> refreshing (snd (getter B now s')) p B) \<and>
     (\<forall>now p A. fst (getter B now s') = Awaiting p \<and> A \<noteq> B \<longrightarrow>
        \<not> refreshing (snd (getter B now s')) p A)"
proof -
  have r: "session_ok s" unfolding s_def by (rule session_ok_reachable)
  have s': "s' = session_step ev s" by (simp add: s_def s'_def)
  have r': "session_ok s'" using r by (simp add: s' session_ok_step)
  have o: "event_key s ev \<noteq> Some B" using other by (simp add: s_def)
  have fr: "stored B s' = stored B s \<and> updated s' B = updated s B \<and> CoralUser.promise s' B = CoralUser.promise s B"
    unfolding s' using r o by (rule step_frame)
  have own: "refreshing (snd (getter B now s')) p B" if "fst (getter B now s') = Awaiting p"
    for now p
    using r' that by (rule getter_awaits_own)
  have notA: "\<not> refreshing (snd (getter B now s')) p A"
    if "fst (getter B now s') = Awaiting p \<and> A \<noteq> B" for now p A
    using own[of now p] that refreshing_key[of "snd (getter B now s')" p A B] by blast
  show ?thesis
    using fr getter_same_decision[of s' B s] own notA by blast
qed

theorem refresh_frame_witness:
  "event_key (session_run [Getter announcements_key 2000000]
       (session_of (CoralUser_new 0 (\<lambda>k. 0) ''nso'' ''data'' \<lparr>result = ''a1''\<rparr>
        \<lparr>result = \<lparr>Friends.friends = ''f1''\<rparr>\<rparr> \<lparr>result = ''w1''\<rparr> \<lparr>result = ''v1''\<rparr>)
      :: (string, string, string, string, string, string, string) session))
     (Response 0 (AnnouncementsResponse \<lparr>result = ''a2''\<rparr>)) = Some announcements_key \<and>
   stored friends_key
     (session_step (Response 0 (AnnouncementsResponse \<lparr>result = ''a2''\<rparr>))
       (session_run [Getter announcements_key 2000000]
       (session_of (CoralUser_new 0 (\<lambda>k. 0) ''nso'' ''data'' \<lparr>result = ''a1''\<rparr>
        \<lparr>result = \<lparr>Friends.friends = ''f1''\<rparr>\<rparr> \<lparr>result = ''w1''\<rparr> \<lparr>result = ''v1''\<rparr>)
      :: (string, string, string, string, string, string, string) session)))
   = stored friends_key
       (session_run [Getter announcements_key 2000000]
       (session_of (CoralUser_new 0 (\<lambda>k. 0) ''nso'' ''data'' \<lparr>result = ''a1''\<rparr>
        \<lparr>result = \<lparr>Friends.friends = ''f1''\<rparr>\<rparr> \<lparr>result = ''w1''\<rparr> \<lparr>result = ''v1''\<rparr>)
      :: (string, string, string, string, string, string, string) session)) \<and>
   (\<forall>now. (fst (getter friends_key now
     (session_step (Response 0 (AnnouncementsResponse \<lparr>result = ''a2''\<rparr>))
       (session_run [Getter announcements_key 2000000]
       (session_of (CoralUser_new 0 (\<lambda>k. 0) ''nso'' ''data'' \<lparr>result = ''a1''\<rparr>
        \<lparr>result = \<lparr>Friends.friends = ''f1''\<rparr>\<rparr> \<lparr>result = ''w1''\<rparr> \<lparr>result = ''v1''\<rparr>)
      :: (string, string, string, string, string, string, string) session)))) = NotUpdating)
    = (fst (getter friends_key now
       (session_run [Getter announcements_key 2000000]
       (session_of (CoralUser_new 0 (\<lambda>k. 0) ''nso'' ''data'' \<lparr>result = ''a1''\<rparr>
        \<lparr>result = \<lparr>Friends.friends = ''f1''\<rparr>\<rparr> \<lparr>result = ''w1''\<rparr> \<lparr>result = ''v1''\<rparr>)
      :: (string, string, string, string, string, string, string) session))) = NotUpdating))"
proof -
  define s :: "(string, string, string, string, string, string, string) session"
    where "s = session_run [Getter announcements_key 2000000]
       (session_of (CoralUser_new 0 (\<lambda>k. 0) ''nso'' ''data'' \<lparr>result = ''a1''\<rparr>
        \<lparr>result = \<lparr>Friends.friends = ''f1''\<rparr>\<rparr> \<lparr>result = ''w1''\<rparr> \<lparr>result = ''v1''\<rparr>))"
  have k: "event_key s (Response 0 (AnnouncementsResponse \<lparr>result = ''a2''\<rparr>)) =
      Some announcements_key"
    by (simp add: s_def getAnnouncements_def update_def session_of_sel CoralUser_new_def)
  then have h: "event_key s (Response 0 (AnnouncementsResponse \<lparr>result = ''a2''\<rparr>)) \<noteq>
      Some friends_key"
    by auto
  note t = refresh_frame[where B = friends_key and
      ev = "Response 0 (AnnouncementsResponse \<lparr>result = ''a2''\<rparr>)" and
      evs = "[Getter announcements_key 2000000]" and
      tc = 0 and tu = "\<lambda>k. 0" and n = "''nso''" and d = "''data''" and a = "\<lparr>result = ''a1''\<rparr>" and
      f = "\<lparr>result = \<lparr>Friends.friends = ''f1''\<rparr>\<rparr>" and w = "\<lparr>result = ''w1''\<rparr>" and
      v = "\<lparr>result = ''v1''\<rparr>", OF h[unfolded s_def]]
  show ?thesis using k t unfolding s_def by blast
qed

section \<open>A refresh that fails\<close>

lemma fetching_step:
  assumes r: "session_ok s" and c: "refreshes s p = Some (k, cb, Fetching)"
    and n: "\<not> completes p ev"
  shows "updated (session_step ev s) k = updated s k \<and>
         stored k (session_step ev s) = stored k s \<and>
         refreshes (session_step ev s) p = Some (k, cb, Fetching)"
proof (cases ev)
  case (Getter k' now)
  then show ?thesis using getter_refreshes_old[OF r c] by (simp add: getter_frame)
next
  case (Response q x)
  then have qp: "q \<noteq> p" using n by simp
  show ?thesis
  proof (cases "\<exists>k' cb'. refreshes s q = Some (k', cb', Fetching) \<and> answers x = cb'")
    case True
    then obtain k' cb' where c': "refreshes s q = Some (k', cb', Fetching)"
      and a: "answers x = cb'" by blast
    have cbk: "cb' = k'" using r c' by (rule session_ok_cb)
    have "k' \<noteq> k"
    proof
      assume "k' = k"
      then have "refreshing s q k" "refreshing s p k" using c c' by (simp_all add: refreshing_def)
      then have "q = p" using refreshing_unique[OF r] by blast
      with qp show False by simp
    qed
    then show ?thesis using Response c c' a cbk qp
      by (simp add: callback_resumes_def stored_upd stored_assign assign_frame)
  next
    case False
    then have "callback_resumes q x s = s"
      by (auto simp: callback_resumes_def split: option.splits refresh.splits)
    then show ?thesis using Response c by simp
  qed
next
  case (Failure q e)
  then have qp: "q \<noteq> p" using n by simp
  then show ?thesis using Failure c
    by (auto simp add: callback_throws_def stored_upd split: option.splits refresh.splits prod.splits)
next
  case (Then q now)
  show ?thesis
  proof (cases "\<exists>k' cb'. refreshes s q = Some (k', cb', Assigned)")
    case True
    then obtain k' cb' where c': "refreshes s q = Some (k', cb', Assigned)" by blast
    have qp: "q \<noteq> p" using c c' by auto
    have "k' \<noteq> k"
    proof
      assume "k' = k"
      then have "refreshing s q k" "refreshing s p k" using c c' by (simp_all add: refreshing_def)
      then have "q = p" using refreshing_unique[OF r] by blast
      with qp show False by simp
    qed
    then show ?thesis using Then c c' qp by (simp add: update_then_cb_def stored_upd)
  next
    case False
    then have "update_then_cb q now s = s"
      by (auto simp: update_then_cb_def split: option.splits refresh.splits)
    then show ?thesis using Then c by simp
  qed
next
  case (Cleanup q)
  have "q = p \<longrightarrow> update_finally_cb q s = s" using c by (simp add: update_finally_cb_def)
  then show ?thesis using Cleanup c
    by (cases "q = p")
       (auto simp add: update_finally_cb_def stored_upd split: option.splits refresh.splits prod.splits)
qed

lemma fetching_run:
  "session_ok s \<Longrightarrow> refreshes s p = Some (k, cb, Fetching) \<Longrightarrow> \<forall>ev\<in>set evs. \<not> completes p ev \<Longrightarrow>
   updated (session_run evs s) k = updated s k \<and> stored k (session_run evs s) = stored k s"
proof (induction evs arbitrary: s)
  case Nil
  then show ?case by simp
next
  case (Cons ev evs)
  have 1: "updated (session_step ev s) k = updated s k \<and>
         stored k (session_step ev s) = stored k s \<and>
         refreshes (session_step ev s) p = Some (k, cb, Fetching)"
    using Cons.prems by (intro fetching_step) simp_all
  have 2: "session_ok (session_step ev s)" using Cons.prems(1) by (rule session_ok_step)
  show ?case using Cons.IH[OF 2] 1 Cons.prems(3) by simp
qed

lemma finished_step:
  assumes r: "session_ok s" and c: "refreshes s p = Some (k, cb, Finished x)"
  shows "refreshes (session_step ev s) p = Some (k, cb, Finished x)"
proof (cases ev)
  case (Getter k' now)
  then show ?thesis using getter_refreshes_old[OF r c] by simp
next
  case (Response q y)
  then show ?thesis using c
    by (auto simp add: callback_resumes_def assign_frame split: option.splits refresh.splits prod.splits)
next
  case (Failure q e)
  then show ?thesis using c
    by (auto simp add: callback_throws_def split: option.splits refresh.splits prod.splits)
next
  case (Then q now)
  then show ?thesis using c
    by (auto simp add: update_then_cb_def split: option.splits refresh.splits prod.splits)
next
  case (Cleanup q)
  then show ?thesis using c
    by (auto simp add: update_finally_cb_def split: option.splits refresh.splits prod.splits)
qed

lemma finished_run:
  "session_ok s \<Longrightarrow> refreshes s p = Some (k, cb, Finished x) \<Longrightarrow>
   refreshes (session_run evs s) p = Some (k, cb, Finished x)"
  by (induction evs arbitrary: s) (simp_all add: finished_step session_ok_step)

text \<open>
  Claim C6. Let the refresh \<open>p\<close> of key \<open>k\<close> be under way in a reachable session \<open>s\<close>,
  its request not yet answered. While the request is out, under every schedule,
  \<open>updated[k]\<close> and the raw value stored for \<open>k\<close> do not change. When the request
  rejects with \<open>e\<close> and the \<^verbatim>\<open>finally\<close> callback has run: the pending entry of \<open>k\<close> is
  gone; \<open>updated\<close> and every stored raw value are what they were; whoever awaits \<open>p\<close>
  is thrown \<open>e\<close>, now and at any later time; callers of the getter that arrive before
  the callback, the field being stale, await the same \<open>p\<close>, hence receive the same
  \<open>e\<close>; and the next call of the getter after it, the field being stale as before,
  sends a new request on a new promise.
\<close>

theorem refresh_rejection:
  fixes evs :: "('a, 'f, 'w, 'v, 'e) session_event list"
    and s s1 s2 :: "('n, 'd, 'a, 'f, 'w, 'v, 'e) session"
    and tc :: int and tu :: "key \<Rightarrow> int" and n :: 'n and d :: 'd
    and a :: "'a ZncSuccessResponse" and f :: "'f Friends ZncSuccessResponse"
    and w :: "'w ZncSuccessResponse" and v :: "'v ZncSuccessResponse"
    and p :: pid and e :: 'e
  defines "s \<equiv> session_run evs (session_of (CoralUser_new tc tu n d a f w v))"
  defines "s1 \<equiv> callback_throws p e (session_run evs (session_of (CoralUser_new tc tu n d a f w v)))"
  defines "s2 \<equiv> update_finally_cb p
      (callback_throws p e (session_run evs (session_of (CoralUser_new tc tu n d a f w v))))"
  assumes c: "refreshes (session_run evs (session_of (CoralUser_new tc tu n d a f w v)) ::
        ('n, 'd, 'a, 'f, 'w, 'v, 'e) session) p = Some (k, cb, Fetching)"
  shows "CoralUser.promise s2 k = None \<and>
     updated s2 = updated s \<and>
     (\<forall>k'. stored k' s2 = stored k' s) \<and>
     (\<forall>evs'. (\<forall>ev\<in>set evs'. \<not> completes p ev) \<longrightarrow>
        updated (session_run evs' s) k = updated s k \<and>
        stored k (session_run evs' s) = stored k s) \<and>
     (\<forall>evs'. awaited (session_run evs' s2) (Awaiting p) = Some (Inl e)) \<and>
     (\<forall>now. ttl_of k < now - updated s k \<longrightarrow>
        fst (getter k now s) = Awaiting p \<and>
        fst (getter k now s1) = Awaiting p \<and>
        fst (getter k now s2) = Awaiting (length (requests s)) \<and>
        requests (snd (getter k now s2)) = requests s @ [k] \<and>
        refreshes (snd (getter k now s2)) (length (requests s)) = Some (k, k, Fetching))"
proof -
  have r: "session_ok s" unfolding s_def by (rule session_ok_reachable)
  have c0: "refreshes s p = Some (k, cb, Fetching)" using c by (simp add: s_def)
  have s1: "s1 = callback_throws p e s" and s2: "s2 = update_finally_cb p s1"
    by (simp_all add: s_def s1_def s2_def)
  have r2: "session_ok s2"
    using r by (simp add: s1 s2 session_ok_callback_throws session_ok_update_finally_cb)
  have c1: "refreshes s1 p = Some (k, cb, Failed e)" using c0 by (simp add: s1 callback_throws_def)
  have c2: "refreshes s2 p = Some (k, cb, Finished (Some e))"
    using c1 by (simp add: s2 update_finally_cb_def)
  have p0: "CoralUser.promise s k = Some p"
    using session_ok_promise[OF r, of k p] refreshing_at[OF c0, of k] by simp
  have p1: "CoralUser.promise s1 k = Some p" using p0 c0 by (simp add: s1 callback_throws_def)
  have p2: "CoralUser.promise s2 k = None" using c1 by (simp add: s2 update_finally_cb_def)
  have u1: "updated s1 = updated s" using c0 by (simp add: s1 callback_throws_def)
  have u2: "updated s2 = updated s" using c1 u1 by (simp add: s2 update_finally_cb_def)
  have st: "stored k' s2 = stored k' s" for k'
    using c0 c1 by (simp add: s2 update_finally_cb_def s1 callback_throws_def stored_upd)
  have i2: "requests s2 = requests s"
    using c0 c1 by (simp add: s2 update_finally_cb_def s1 callback_throws_def)
  have o: "awaited (session_run evs' s2) (Awaiting p) = Some (Inl e)" for evs'
    using finished_run[OF r2 c2, of evs'] by (simp add: awaited_def)
  have wl: "updated (session_run evs' s) k = updated s k \<and>
        stored k (session_run evs' s) = stored k s"
    if "\<forall>ev\<in>set evs'. \<not> completes p ev" for evs'
    using r c0 that by (rule fetching_run)
  have g: "fst (getter k now s) = Awaiting p \<and>
        fst (getter k now s1) = Awaiting p \<and>
        fst (getter k now s2) = Awaiting (length (requests s)) \<and>
        requests (snd (getter k now s2)) = requests s @ [k] \<and>
        refreshes (snd (getter k now s2)) (length (requests s)) = Some (k, k, Fetching)"
    if m: "ttl_of k < now - updated s k" for now
  proof -
    have m1: "ttl_of k < now - updated s1 k" and m2: "ttl_of k < now - updated s2 k"
      using m u1 u2 by simp_all
    show ?thesis
      using getter_stale_new(1,3,4)[OF m2 p2] i2
      by (simp add: getter_stale_pending[OF m p0] getter_stale_pending[OF m1 p1])
  qed
  show ?thesis using p2 u2 st wl o g by blast
qed

theorem refresh_rejection_witness:
  "refreshes (session_run [Getter friends_key 20000]
       (session_of (CoralUser_new 0 (\<lambda>k. 0) ''nso'' ''data'' \<lparr>result = ''a1''\<rparr>
        \<lparr>result = \<lparr>Friends.friends = ''f1''\<rparr>\<rparr> \<lparr>result = ''w1''\<rparr> \<lparr>result = ''v1''\<rparr>)
      :: (string, string, string, string, string, string, string) session)) 0
     = Some (friends_key, friends_key, Fetching) \<and>
   CoralUser.promise (update_finally_cb 0 (callback_throws 0 ''E''
     (session_run [Getter friends_key 20000]
       (session_of (CoralUser_new 0 (\<lambda>k. 0) ''nso'' ''data'' \<lparr>result = ''a1''\<rparr>
        \<lparr>result = \<lparr>Friends.friends = ''f1''\<rparr>\<rparr> \<lparr>result = ''w1''\<rparr> \<lparr>result = ''v1''\<rparr>)
      :: (string, string, string, string, string, string, string) session)))) friends_key = None \<and>
   updated (update_finally_cb 0 (callback_throws 0 ''E''
     (session_run [Getter friends_key 20000]
       (session_of (CoralUser_new 0 (\<lambda>k. 0) ''nso'' ''data'' \<lparr>result = ''a1''\<rparr>
        \<lparr>result = \<lparr>Friends.friends = ''f1''\<rparr>\<rparr> \<lparr>result = ''w1''\<rparr> \<lparr>result = ''v1''\<rparr>)
      :: (string, string, string, string, string, string, string) session)))) friends_key = 0 \<and>
   awaited (update_finally_cb 0 (callback_throws 0 ''E''
     (session_run [Getter friends_key 20000]
       (session_of (CoralUser_new 0 (\<lambda>k. 0) ''nso'' ''data'' \<lparr>result = ''a1''\<rparr>
        \<lparr>result = \<lparr>Friends.friends = ''f1''\<rparr>\<rparr> \<lparr>result = ''w1''\<rparr> \<lparr>result = ''v1''\<rparr>)
      :: (string, string, string, string, string, string, string) session)))) (Awaiting 0)
     = Some (Inl ''E'') \<and>
   fst (getter friends_key 30000 (update_finally_cb 0 (callback_throws 0 ''E''
     (session_run [Getter friends_key 20000]
       (session_of (CoralUser_new 0 (\<lambda>k. 0) ''nso'' ''data'' \<lparr>result = ''a1''\<rparr>
        \<lparr>result = \<lparr>Friends.friends = ''f1''\<rparr>\<rparr> \<lparr>result = ''w1''\<rparr> \<lparr>result = ''v1''\<rparr>)
      :: (string, string, string, string, string, string, string) session))))) = Awaiting 1"
proof -
  define s :: "(string, string, string, string, string, string, string) session"
    where "s = session_run [Getter friends_key 20000]
       (session_of (CoralUser_new 0 (\<lambda>k. 0) ''nso'' ''data'' \<lparr>result = ''a1''\<rparr>
        \<lparr>result = \<lparr>Friends.friends = ''f1''\<rparr>\<rparr> \<lparr>result = ''w1''\<rparr> \<lparr>result = ''v1''\<rparr>))"
  have h: "refreshes s 0 = Some (friends_key, friends_key, Fetching)"
    and u: "updated s friends_key = 0" and q: "length (requests s) = 1"
    by (simp_all add: s_def getFriends_def update_def session_of_sel CoralUser_new_def)
  note t = refresh_rejection[where p = 0 and k = friends_key and cb = friends_key and e = "''E''" and
      evs = "[Getter friends_key 20000]" and
      tc = 0 and tu = "\<lambda>k. 0" and n = "''nso''" and d = "''data''" and a = "\<lparr>result = ''a1''\<rparr>" and
      f = "\<lparr>result = \<lparr>Friends.friends = ''f1''\<rparr>\<rparr>" and w = "\<lparr>result = ''w1''\<rparr>" and
      v = "\<lparr>result = ''v1''\<rparr>", OF h[unfolded s_def], folded s_def]
  have st: "ttl_of friends_key < 30000 - updated s friends_key" by (simp add: u)
  have 1: "CoralUser.promise (update_finally_cb 0 (callback_throws 0 ''E'' s)) friends_key = None"
    and 2: "updated (update_finally_cb 0 (callback_throws 0 ''E'' s)) = updated s"
    using t by blast+
  have 3: "awaited (update_finally_cb 0 (callback_throws 0 ''E'' s)) (Awaiting 0) = Some (Inl ''E'')"
    using t[THEN conjunct2, THEN conjunct2, THEN conjunct2, THEN conjunct2, THEN conjunct1,
        rule_format, of "[]"] by simp
  have 4: "fst (getter friends_key 30000 (update_finally_cb 0 (callback_throws 0 ''E'' s))) =
      Awaiting (length (requests s))"
    using t st by blast
  show ?thesis using h 1 2 3 4 u q unfolding s_def by simp
qed

section \<open>Session objects never expire in the cache\<close>

lemma expires_at_assign: "expires_at (assign r s) = expires_at s"
  by (cases r) simp_all

lemma expires_at_session_step: "expires_at (session_step ev s) = expires_at s"
proof (cases ev)
  case (Getter k now)
  then show ?thesis
    by (simp add: getter_update update_def Let_def split: option.splits)
next
  case (Response p r)
  then show ?thesis
    by (simp add: callback_resumes_def expires_at_assign split: option.splits refresh.splits prod.splits)
next
  case (Failure p e)
  then show ?thesis
    by (simp add: callback_throws_def split: option.splits refresh.splits prod.splits)
next
  case (Then p now)
  then show ?thesis
    by (simp add: update_then_cb_def split: option.splits refresh.splits prod.splits)
next
  case (Cleanup p)
  then show ?thesis
    by (simp add: update_finally_cb_def split: option.splits refresh.splits prod.splits)
qed

lemma expires_at_session_run: "expires_at (session_run evs s) = expires_at s"
  by (induction evs arbitrary: s) (simp_all add: expires_at_session_step)

lemma kept_step:
  assumes u: "users s tok = Some u" and inf: "expires_at u = Infinity"
    and nl: "\<forall>q. chain s q \<noteq> Some (tok, Loading)"
  shows "users (step ev s) tok = Some u \<and> (\<forall>q. chain (step ev s) q \<noteq> Some (tok, Loading)) \<and>
         count_list (invoked (step ev s)) tok = count_list (invoked s) tok"
proof (cases ev)
  case (Get t now)
  show ?thesis
  proof (cases "t = tok")
    case True
    then have "get t now s = (Returned u, s)" using u inf by (simp add: get_def)
    then show ?thesis using Get u nl by simp
  next
    case False
    have "get t now s = (fst (get t now s), s) \<or> get t now s = get_miss t s"
      by (auto simp add: get_def split: option.splits)
    moreover have "users (snd (get_miss t s)) tok = Some u \<and>
        (\<forall>q. chain (snd (get_miss t s)) q \<noteq> Some (tok, Loading)) \<and>
        count_list (invoked (snd (get_miss t s))) tok = count_list (invoked s) tok"
      using False u nl by (auto simp add: get_miss_def Let_def split: option.splits)
    ultimately show ?thesis using Get u nl by (metis step.simps(1) snd_conv)
  qed
next
  case (Resolve q d)
  show ?thesis
  proof (cases "\<exists>t. chain s q = Some (t, Loading)")
    case True
    then obtain t where c: "chain s q = Some (t, Loading)" by blast
    then have "t \<noteq> tok" using nl by auto
    then show ?thesis using Resolve c u nl by (auto simp add: then_cb_def)
  next
    case False
    then have "then_cb q d s = s"
      by (auto simp: then_cb_def split: option.splits load.splits)
    then show ?thesis using Resolve u nl by simp
  qed
next
  case (Reject q e)
  show ?thesis
  proof (cases "\<exists>t. chain s q = Some (t, Loading)")
    case True
    then obtain t where c: "chain s q = Some (t, Loading)" by blast
    then show ?thesis using Reject c u nl by (auto simp add: rejected_def)
  next
    case False
    then have "rejected q e s = s"
      by (auto simp: rejected_def split: option.splits load.splits)
    then show ?thesis using Reject u nl by simp
  qed
next
  case (Finally q)
  show ?thesis
  proof (cases "\<exists>t r. chain s q = Some (t, Chained r)")
    case True
    then obtain t r where c: "chain s q = Some (t, Chained r)" by blast
    then show ?thesis using Finally c u nl by (auto simp add: finally_cb_def)
  next
    case False
    then have "finally_cb q s = s"
      by (auto simp: finally_cb_def split: option.splits load.splits)
    then show ?thesis using Finally u nl by simp
  qed
qed

lemma kept_run:
  "users s tok = Some u \<Longrightarrow> expires_at u = Infinity \<Longrightarrow>
   \<forall>q. chain s q \<noteq> Some (tok, Loading) \<Longrightarrow>
   users (run evs s) tok = Some u \<and> count_list (invoked (run evs s)) tok = count_list (invoked s) tok"
proof (induction evs arbitrary: s)
  case Nil
  then show ?case by simp
next
  case (Cons ev evs)
  have 1: "users (step ev s) tok = Some u \<and> (\<forall>q. chain (step ev s) q \<noteq> Some (tok, Loading)) \<and>
         count_list (invoked (step ev s)) tok = count_list (invoked s) tok"
    using Cons.prems by (rule kept_step)
  show ?case using Cons.IH[of "step ev s"] 1 Cons.prems(2) by simp
qed

text \<open>
  Claim C9. The constructor sets \<open>expires_at\<close> to \<^verbatim>\<open>Infinity\<close>, and no step of the
  session ever assigns it. In the cache, let a load of \<open>tok\<close> be in flight in any
  reachable state and let its loader resolve with a newly constructed session object
  \<open>u\<close>. From the moment the \<^verbatim>\<open>then\<close> callback has stored \<open>u\<close>, under every schedule
  and at every time \<open>now\<close>: \<open>get(tok)\<close> returns \<open>u\<close> itself and leaves the state as it
  is, the entry of \<open>tok\<close> stays \<open>u\<close>, and the loader is never called for \<open>tok\<close> again.
  (The cache holds the object by reference; the model's value \<open>u\<close> stands for that
  object, whose \<open>expires_at\<close> stays \<^verbatim>\<open>Infinity\<close> whatever its getters do.)
\<close>

theorem session_never_expires:
  fixes evs :: "('e, ('n, 'd, 'a, 'f, 'w, 'v) CoralUser) event list"
    and tc :: int and tu :: "key \<Rightarrow> int" and n :: 'n and d :: 'd
    and a :: "'a ZncSuccessResponse" and f :: "'f Friends ZncSuccessResponse"
    and w :: "'w ZncSuccessResponse" and v :: "'v ZncSuccessResponse"
    and p :: pid
    and u :: "('n, 'd, 'a, 'f, 'w, 'v) CoralUser"
    and s1 :: "('e, ('n, 'd, 'a, 'f, 'w, 'v) CoralUser) Users"
  defines "u \<equiv> CoralUser_new tc tu n d a f w v"
  defines "s1 \<equiv> then_cb p (CoralUser_new tc tu n d a f w v) (run evs Users_new)"
  assumes c: "chain (run evs Users_new) p = Some (tok, Loading)"
  shows "expires_at u = Infinity \<and>
     (\<forall>sevs :: ('a, 'f, 'w, 'v, 'x) session_event list.
        expires_at (session_run sevs (session_of u)) = Infinity) \<and>
     users s1 tok = Some u \<and>
     (\<forall>evs' now. get tok now (run evs' s1) = (Returned u, run evs' s1)) \<and>
     (\<forall>evs'. users (run evs' s1) tok = Some u \<and>
        count_list (invoked (run evs' s1)) tok = count_list (invoked (run evs Users_new)) tok)"
proof -
  let ?s = "run evs Users_new :: ('e, ('n, 'd, 'a, 'f, 'w, 'v) CoralUser) Users"
  have r: "registered ?s" by (rule registered_reachable)
  have inf: "expires_at u = Infinity" by (simp add: u_def CoralUser_new_def)
  have sinf: "expires_at (session_run sevs (session_of u)) = Infinity"
    for sevs :: "('a, 'f, 'w, 'v, 'x) session_event list"
    using inf by (simp add: expires_at_session_run session_of_sel)
  have s1: "s1 = then_cb p u ?s" by (simp add: s1_def u_def)
  have u1: "users s1 tok = Some u" using c by (simp add: s1 then_cb_def)
  have i1: "invoked s1 = invoked ?s" using c by (simp add: s1 then_cb_def)
  have nl: "\<forall>q. chain s1 q \<noteq> Some (tok, Loading)"
  proof
    fix q
    show "chain s1 q \<noteq> Some (tok, Loading)"
    proof (cases "q = p")
      case True
      then show ?thesis using c by (simp add: s1 then_cb_def)
    next
      case False
      have "chain ?s q \<noteq> Some (tok, Loading)"
      proof
        assume q: "chain ?s q = Some (tok, Loading)"
        have "in_flight ?s q tok" "in_flight ?s p tok"
          using q c by (simp_all add: in_flight_def)
        then have "q = p" using in_flight_unique[OF r] by blast
        with False show False by simp
      qed
      then show ?thesis using False c by (simp add: s1 then_cb_def)
    qed
  qed
  have k: "users (run evs' s1) tok = Some u \<and>
        count_list (invoked (run evs' s1)) tok = count_list (invoked ?s) tok" for evs'
    using kept_run[OF u1 inf nl, of evs'] i1 by simp
  have g: "get tok now (run evs' s1) = (Returned u, run evs' s1)" for evs' now
    using k[of evs'] inf by (simp add: get_def)
  show ?thesis using inf sinf u1 g k by blast
qed

theorem session_never_expires_witness:
  "chain (run [Get ''t'' 0] (Users_new ::
      (string, (string, string, string, string, string, string) CoralUser) Users)) 0
     = Some (''t'', Loading) \<and>
   get ''t'' 99999999
     (run [Get ''t'' 5, Finally 0, Get ''u'' 7]
       (then_cb 0 (CoralUser_new 0 (\<lambda>k. 0) ''nso'' ''data'' \<lparr>result = ''a1''\<rparr>
          \<lparr>result = \<lparr>Friends.friends = ''f1''\<rparr>\<rparr> \<lparr>result = ''w1''\<rparr> \<lparr>result = ''v1''\<rparr>)
         (run [Get ''t'' 0] (Users_new ::
            (string, (string, string, string, string, string, string) CoralUser) Users))))
   = (Returned (CoralUser_new 0 (\<lambda>k. 0) ''nso'' ''data'' \<lparr>result = ''a1''\<rparr>
          \<lparr>result = \<lparr>Friends.friends = ''f1''\<rparr>\<rparr> \<lparr>result = ''w1''\<rparr> \<lparr>result = ''v1''\<rparr>),
      run [Get ''t'' 5, Finally 0, Get ''u'' 7]
       (then_cb 0 (CoralUser_new 0 (\<lambda>k. 0) ''nso'' ''data'' \<lparr>result = ''a1''\<rparr>
          \<lparr>result = \<lparr>Friends.friends = ''f1''\<rparr>\<rparr> \<lparr>result = ''w1''\<rparr> \<lparr>result = ''v1''\<rparr>)
         (run [Get ''t'' 0] Users_new))) \<and>
   count_list (invoked
     (run [Get ''t'' 5, Finally 0, Get ''u'' 7]
       (then_cb 0 (CoralUser_new 0 (\<lambda>k. 0) ''nso'' ''data'' \<lparr>result = ''a1''\<rparr>
          \<lparr>result = \<lparr>Friends.friends = ''f1''\<rparr>\<rparr> \<lparr>result = ''w1''\<rparr> \<lparr>result = ''v1''\<rparr>)
         (run [Get ''t'' 0] (Users_new ::
            (string, (string, string, string, string, string, string) CoralUser) Users))))) ''t''
   = 1"
proof -
  have h: "chain (run [Get ''t'' 0] (Users_new ::
      (string, (string, string, string, string, string, string) CoralUser) Users)) 0
     = Some (''t'', Loading)"
    by (simp add: get_def get_miss_def Users_new_def)
  have i: "count_list (invoked (run [Get ''t'' 0] (Users_new ::
      (string, (string, string, string, string, string, string) CoralUser) Users))) ''t'' = 1"
    by (simp add: get_def get_miss_def Users_new_def)
  note t = session_never_expires[where evs = "[Get ''t'' 0]" and p = 0 and tok = "''t''" and
      tc = 0 and tu = "\<lambda>k. 0" and n = "''nso''" and d = "''data''" and a = "\<lparr>result = ''a1''\<rparr>" and
      f = "\<lparr>result = \<lparr>Friends.friends = ''f1''\<rparr>\<rparr>" and w = "\<lparr>result = ''w1''\<rparr>" and
      v = "\<lparr>result = ''v1''\<rparr>", OF h]
  note t4 = t[THEN conjunct2, THEN conjunct2, THEN conjunct2, THEN conjunct1, rule_format]
  note t5 = t[THEN conjunct2, THEN conjunct2, THEN conjunct2, THEN conjunct2, rule_format,
      THEN conjunct2]
  show ?thesis using h t4[of 99999999 "[Get ''t'' 5, Finally 0, Get ''u'' 7]"]
      t5[of "[Get ''t'' 5, Finally 0, Get ''u'' 7]"] i
    by simp
qed

section \<open>The loader of the session cache\<close>

lemma promise_all_cases:
  "promise_all n d a f w v =
     (case (a, f, w, v) of
        (Some a', Some f', Some w', Some v') \<Rightarrow> AllResolved n d a' f' w' v'
      | _ \<Rightarrow> AwaitingAll n d a f w v)"
  by (cases a; cases f; cases w; cases v) simp_all

lemma justified_mono: "justified E ph \<Longrightarrow> E \<subseteq> E' \<Longrightarrow> justified E' ph"
proof (cases ph)
  case (LoadResolved u)
  assume j: "justified E ph" and sub: "E \<subseteq> E'"
  from j LoadResolved obtain tc tu n d a f w v where
    "u = CoralUser_new tc tu n d a f w v" "Resume tc tu \<in> E" "TokenResolved n d \<in> E"
    "arrived E (Some a) (Some f) (Some w) (Some v)"
    by auto
  then have "u = CoralUser_new tc tu n d a f w v \<and> Resume tc tu \<in> E' \<and> TokenResolved n d \<in> E' \<and>
    arrived E' (Some a) (Some f) (Some w) (Some v)"
    using sub by auto
  then show ?thesis unfolding LoadResolved justified.simps by blast
qed auto

lemma request_resolved_promise_all:
  "request_resolved r (promise_all n d a f w v) =
     (case r of
        AnnouncementsResponse x \<Rightarrow> promise_all n d (keep a x) f w v
      | FriendListResponse x \<Rightarrow> promise_all n d a (keep f x) w v
      | WebServicesResponse x \<Rightarrow> promise_all n d a f (keep w x) v
      | ActiveEventResponse x \<Rightarrow> promise_all n d a f w (keep v x))"
  by (cases r; cases a; cases f; cases w; cases v) simp_all

lemma orelse_keep:
  "orelse (keep a x) y = orelse a (Some x)"
  by (cases a) simp_all

lemma responses_run:
  "phase l = promise_all n d a f w v \<Longrightarrow>
   phase (loader_run (map RequestResolved rs) l) =
     promise_all n d (orelse a (first_announcements rs)) (orelse f (first_friends rs))
       (orelse w (first_webservices rs)) (orelse v (first_active_event rs))"
proof (induction rs arbitrary: l a f w v)
  case Nil
  then show ?case by (cases a; cases f; cases w; cases v) simp_all
next
  case (Cons r rs)
  show ?case
  proof (cases r)
    case (AnnouncementsResponse x)
    have "phase (loader_step (RequestResolved r) l) = promise_all n d (keep a x) f w v"
      using Cons.prems AnnouncementsResponse by (simp add: request_resolved_promise_all)
    from Cons.IH[OF this] show ?thesis
      using AnnouncementsResponse by (cases a) simp_all
  next
    case (FriendListResponse x)
    have "phase (loader_step (RequestResolved r) l) = promise_all n d a (keep f x) w v"
      using Cons.prems FriendListResponse by (simp add: request_resolved_promise_all)
    from Cons.IH[OF this] show ?thesis
      using FriendListResponse by (cases f) simp_all
  next
    case (WebServicesResponse x)
    have "phase (loader_step (RequestResolved r) l) = promise_all n d a f (keep w x) v"
      using Cons.prems WebServicesResponse by (simp add: request_resolved_promise_all)
    from Cons.IH[OF this] show ?thesis
      using WebServicesResponse by (cases w) simp_all
  next
    case (ActiveEventResponse x)
    have "phase (loader_step (RequestResolved r) l) = promise_all n d a f w (keep v x)"
      using Cons.prems ActiveEventResponse by (simp add: request_resolved_promise_all)
    from Cons.IH[OF this] show ?thesis
      using ActiveEventResponse by (cases v) simp_all
  qed
qed

lemma loader_run_append: "loader_run (evs @ evs') l = loader_run evs' (loader_run evs l)"
  by (induction evs arbitrary: l) simp_all

lemma first_announcements_None:
  "announcements_key \<notin> answers ` set rs \<Longrightarrow> first_announcements rs = None"
proof (induction rs)
  case (Cons r rs)
  then show ?case by (cases r) simp_all
qed simp

lemma first_friends_None:
  "friends_key \<notin> answers ` set rs \<Longrightarrow> first_friends rs = None"
proof (induction rs)
  case (Cons r rs)
  then show ?case by (cases r) simp_all
qed simp

lemma first_webservices_None:
  "webservices_key \<notin> answers ` set rs \<Longrightarrow> first_webservices rs = None"
proof (induction rs)
  case (Cons r rs)
  then show ?case by (cases r) simp_all
qed simp

lemma first_active_event_None:
  "active_event_key \<notin> answers ` set rs \<Longrightarrow> first_active_event rs = None"
proof (induction rs)
  case (Cons r rs)
  then show ?case by (cases r) simp_all
qed simp

lemma settled_final: "load_settled (phase l) \<Longrightarrow> phase (loader_step ev l) = phase l"
  by (cases ev; cases "phase l") simp_all

lemma settled_final_run: "load_settled (phase l) \<Longrightarrow> phase (loader_run evs l) = phase l"
  by (induction evs arbitrary: l) (simp_all add: settled_final)

lemma keep_cases: "keep a x = Some y \<Longrightarrow> a = Some y \<or> x = y"
  by (cases a) auto

lemma justified_step:
  assumes j: "justified E (phase l)"
  shows "justified (insert ev E) (phase (loader_step ev l))"
proof -
  have j': "justified (insert ev E) (phase l)" using j by (rule justified_mono) auto
  show ?thesis
  proof (cases ev)
    case (TokenResolved n d)
    then show ?thesis using j' by (cases "phase l") simp_all
  next
    case (TokenRejected e)
    then show ?thesis using j' by (cases "phase l") simp_all
  next
    case (RequestResolved r)
    show ?thesis
    proof (cases "phase l")
      case (AwaitingAll n d a f w v)
      then have t: "TokenResolved n d \<in> insert ev E" and ar: "arrived (insert ev E) a f w v"
        using j' by simp_all
      show ?thesis using RequestResolved AwaitingAll t ar
        by (cases r) (auto simp add: promise_all_cases split: option.splits dest!: keep_cases)
    qed (use j' RequestResolved in simp_all)
  next
    case (RequestRejected k e)
    then show ?thesis using j' by (cases "phase l") simp_all
  next
    case (Resume tc tu)
    show ?thesis
    proof (cases "phase l")
      case (AllResolved n d a f w v)
      then have "TokenResolved n d \<in> insert ev E \<and>
          arrived (insert ev E) (Some a) (Some f) (Some w) (Some v) \<and> Resume tc tu \<in> insert ev E"
        using j' Resume by simp
      then show ?thesis using Resume AllResolved unfolding loader_step.simps
        by (simp del: arrived.simps) blast
    qed (use j' Resume in simp_all)
  qed
qed

lemma justified_run:
  "justified E (phase l) \<Longrightarrow> justified (E \<union> set evs) (phase (loader_run evs l))"
proof (induction evs arbitrary: E l)
  case Nil
  then show ?case by simp
next
  case (Cons ev evs)
  have "justified (insert ev E) (phase (loader_step ev l))" using Cons.prems by (rule justified_step)
  from Cons.IH[OF this] show ?case by simp
qed

lemma settled_stays: "load_settled (phase l) \<Longrightarrow> loader_step ev l = l"
  by (cases ev; cases "phase l") simp_all

lemma settled_stays_run: "load_settled (phase l) \<Longrightarrow> loader_run evs l = l"
  by (induction evs arbitrary: l) (simp_all add: settled_stays)

text \<open>
  Claim C8, as stated, fails where it says that the loader settles only after all four
  requests complete: \<^verbatim>\<open>Promise.all\<close> rejects as soon as one of its elements rejects.
  Here the credentials have arrived, the four requests have been sent, and the request
  for the friend list rejects while the other three are still under way: the loader's
  promise is rejected at once, with one request of four completed.
\<close>

theorem coral_loader_fails_fast_counterexample:
  "phase (loader_run [TokenResolved ''n'' ''d'', RequestRejected friends_key ''E'']
      (coral_loader_start ''storage'' None ''t''
        :: (string, string, string, string, string, string, string, string) coral_loader))
     = LoadRejected ''E'' \<and>
   load_settled (phase (loader_run [TokenResolved ''n'' ''d'', RequestRejected friends_key ''E'']
      (coral_loader_start ''storage'' None ''t''
        :: (string, string, string, string, string, string, string, string) coral_loader))) \<and>
   sent (loader_run [TokenResolved ''n'' ''d'', RequestRejected friends_key ''E'']
      (coral_loader_start ''storage'' None ''t''
        :: (string, string, string, string, string, string, string, string) coral_loader))
     = [announcements_key, friends_key, webservices_key, active_event_key] \<and>
   List.map_filter completed
     ([TokenResolved ''n'' ''d'', RequestRejected friends_key ''E'']
        :: (string, string, string, string, string, string, string) loader_event list)
     = [friends_key]"
  by (simp add: coral_loader_start_def map_filter_simps)

text \<open>
  Claim C8, amended. For every run of the loader of \<^verbatim>\<open>Users.coral\<close>:
  \<^item> it starts by calling \<^verbatim>\<open>getToken\<close> with the storage, the token and the proxy
    address, and sends nothing before the credentials arrive;
  \<^item> when they arrive it sends the four requests together, none awaited before the
    next is sent;
  \<^item> it resolves only after all four requests have resolved and the loader has resumed,
    and then with a session object constructed from the client, the credentials and
    those four responses;
  \<^item> when every request resolves, in whatever order, it does resolve, with that object;
  \<^item> when \<^verbatim>\<open>getToken\<close> rejects it rejects with the same error and sends no request;
  \<^item> when a request rejects, whatever other requests have resolved by then, it rejects
    with that error at once, without waiting for the rest, and stays rejected.
\<close>

theorem coral_loader_settles:
  fixes storage :: 's and znc_proxy_url :: "string option" and tok :: token
    and l0 :: "('s, 'n, 'd, 'a, 'f, 'w, 'v, 'e) coral_loader"
  defines "l0 \<equiv> coral_loader_start storage znc_proxy_url tok"
  shows
   "exchanged l0 = [(storage, tok, znc_proxy_url)] \<and> sent l0 = [] \<and>
    (\<forall>n d. sent (loader_step (TokenResolved n d) l0) =
              [announcements_key, friends_key, webservices_key, active_event_key] \<and>
           phase (loader_step (TokenResolved n d) l0) = AwaitingAll n d None None None None) \<and>
    (\<forall>evs u. phase (loader_run evs l0) = LoadResolved u \<longrightarrow>
       (\<exists>tc tu n d a f w v. u = CoralUser_new tc tu n d a f w v \<and>
          TokenResolved n d \<in> set evs \<and>
          RequestResolved (AnnouncementsResponse a) \<in> set evs \<and>
          RequestResolved (FriendListResponse f) \<in> set evs \<and>
          RequestResolved (WebServicesResponse w) \<in> set evs \<and>
          RequestResolved (ActiveEventResponse v) \<in> set evs \<and>
          Resume tc tu \<in> set evs)) \<and>
    (\<forall>n d rs tc tu a f w v.
       first_announcements rs = Some a \<and> first_friends rs = Some f \<and>
       first_webservices rs = Some w \<and> first_active_event rs = Some v \<longrightarrow>
       phase (loader_run (TokenResolved n d # map RequestResolved rs @ [Resume tc tu]) l0) =
         LoadResolved (CoralUser_new tc tu n d a f w v)) \<and>
    (\<forall>e evs. phase (loader_run (TokenRejected e # evs) l0) = LoadRejected e \<and>
       sent (loader_run (TokenRejected e # evs) l0) = []) \<and>
    (\<forall>n d rs k e evs. k \<notin> answers ` set rs \<longrightarrow>
       phase (loader_run (TokenResolved n d # map RequestResolved rs @ RequestRejected k e # evs) l0) =
         LoadRejected e)"
proof -
  have p0: "phase l0 = AwaitingToken" by (simp add: l0_def coral_loader_start_def)
  have 1: "exchanged l0 = [(storage, tok, znc_proxy_url)] \<and> sent l0 = []"
    by (simp add: l0_def coral_loader_start_def)
  have 2: "sent (loader_step (TokenResolved n d) l0) =
              [announcements_key, friends_key, webservices_key, active_event_key] \<and>
           phase (loader_step (TokenResolved n d) l0) = AwaitingAll n d None None None None"
    for n d
    by (simp add: l0_def coral_loader_start_def)
  have 3: "\<exists>tc tu n d a f w v. u = CoralUser_new tc tu n d a f w v \<and>
          TokenResolved n d \<in> set evs \<and>
          RequestResolved (AnnouncementsResponse a) \<in> set evs \<and>
          RequestResolved (FriendListResponse f) \<in> set evs \<and>
          RequestResolved (WebServicesResponse w) \<in> set evs \<and>
          RequestResolved (ActiveEventResponse v) \<in> set evs \<and>
          Resume tc tu \<in> set evs"
    if r: "phase (loader_run evs l0) = LoadResolved u" for evs u
  proof -
    have "justified {} (phase l0)" by (simp add: p0)
    from justified_run[OF this, of evs] r
    have "justified (set evs) (LoadResolved u)" by simp
    then show ?thesis by simp blast
  qed
  have after: "phase (loader_run (map RequestResolved rs) (loader_step (TokenResolved n d) l0)) =
      promise_all n d (first_announcements rs) (first_friends rs)
        (first_webservices rs) (first_active_event rs)" for n d rs
    using responses_run[of "loader_step (TokenResolved n d) l0" n d None None None None rs] 2[of n d]
    by simp
  have 4: "phase (loader_run (TokenResolved n d # map RequestResolved rs @ [Resume tc tu]) l0) =
         LoadResolved (CoralUser_new tc tu n d a f w v)"
    if "first_announcements rs = Some a \<and> first_friends rs = Some f \<and>
       first_webservices rs = Some w \<and> first_active_event rs = Some v"
    for n d rs tc tu a f w v
    using after[of rs n d] that by (simp add: loader_run_append)
  have 5: "phase (loader_run (TokenRejected e # evs) l0) = LoadRejected e \<and>
       sent (loader_run (TokenRejected e # evs) l0) = []" for e evs
  proof -
    have "phase (loader_step (TokenRejected e) l0) = LoadRejected e"
      and s: "sent (loader_step (TokenRejected e) l0) = []"
      by (simp_all add: l0_def coral_loader_start_def)
    then have "loader_run evs (loader_step (TokenRejected e) l0) = loader_step (TokenRejected e) l0"
      by (intro settled_stays_run) simp
    then show ?thesis using \<open>phase (loader_step (TokenRejected e) l0) = LoadRejected e\<close> s by simp
  qed
  have 6: "phase (loader_run (TokenResolved n d # map RequestResolved rs @ RequestRejected k e # evs) l0) =
         LoadRejected e"
    if k: "k \<notin> answers ` set rs" for n d rs k e evs
  proof -
    let ?l = "loader_run (map RequestResolved rs) (loader_step (TokenResolved n d) l0)"
    have "\<not> has_response k (first_announcements rs) (first_friends rs)
        (first_webservices rs) (first_active_event rs)"
      using k first_announcements_None[of rs] first_friends_None[of rs]
        first_webservices_None[of rs] first_active_event_None[of rs]
      by (cases k) auto
    then have "phase (loader_step (RequestRejected k e) ?l) = LoadRejected e"
      using after[of rs n d] by (cases k) (auto simp add: promise_all_cases split: option.splits)
    then have "phase (loader_run evs (loader_step (RequestRejected k e) ?l)) = LoadRejected e"
      by (simp add: settled_final_run)
    then show ?thesis by (simp add: loader_run_append)
  qed
  show ?thesis
    apply (intro conjI allI impI)
    subgoal using 1 by simp
    subgoal using 1 by simp
    subgoal using 2 by simp
    subgoal using 2 by simp
    subgoal for evs u using 3[of evs u] by simp
    subgoal for n d rs tc tu a f w v using 4[of rs a f w v n d tc tu] by simp
    subgoal using 5 by simp
    subgoal using 5 by simp
    subgoal for n d rs k e evs using 6[of k rs n d e evs] by simp
    done
qed

theorem coral_loader_settles_witness:
  "phase (loader_run
      (TokenResolved ''n'' ''d'' #
       map RequestResolved
         [WebServicesResponse \<lparr>result = ''w1''\<rparr>, AnnouncementsResponse \<lparr>result = ''a1''\<rparr>,
          ActiveEventResponse \<lparr>result = ''v1''\<rparr>,
          FriendListResponse \<lparr>result = \<lparr>Friends.friends = ''f1''\<rparr>\<rparr>] @
       [Resume 5 (\<lambda>k. 5)])
      (coral_loader_start ''storage'' None ''t''
        :: (string, string, string, string, string, string, string, string) coral_loader))
     = LoadResolved (CoralUser_new 5 (\<lambda>k. 5) ''n'' ''d'' \<lparr>result = ''a1''\<rparr>
        \<lparr>result = \<lparr>Friends.friends = ''f1''\<rparr>\<rparr> \<lparr>result = ''w1''\<rparr> \<lparr>result = ''v1''\<rparr>) \<and>
   phase (loader_run
      (TokenResolved ''n'' ''d'' #
       map RequestResolved [WebServicesResponse \<lparr>result = ''w1''\<rparr>] @
       RequestRejected friends_key ''E'' # [RequestResolved (AnnouncementsResponse \<lparr>result = ''a1''\<rparr>)])
      (coral_loader_start ''storage'' None ''t''
        :: (string, string, string, string, string, string, string, string) coral_loader))
     = LoadRejected ''E''"
proof -
  note t = coral_loader_settles[where storage = "''storage''" and znc_proxy_url = None and
      tok = "''t''" and
      'n = string and 'd = string and 'a = string and 'f = string and 'w = string and
      'v = string and 'e = string]
  note t5 = t[THEN conjunct2, THEN conjunct2, THEN conjunct2, THEN conjunct2, THEN conjunct1,
      rule_format]
  note t7 = t[THEN conjunct2, THEN conjunct2, THEN conjunct2, THEN conjunct2, THEN conjunct2,
      THEN conjunct2, rule_format]
  have 1: "phase (loader_run
      (TokenResolved ''n'' ''d'' #
       map RequestResolved
         [WebServicesResponse \<lparr>result = ''w1''\<rparr>, AnnouncementsResponse \<lparr>result = ''a1''\<rparr>,
          ActiveEventResponse \<lparr>result = ''v1''\<rparr>,
          FriendListResponse \<lparr>result = \<lparr>Friends.friends = ''f1''\<rparr>\<rparr>] @
       [Resume 5 (\<lambda>k. 5)])
      (coral_loader_start ''storage'' None ''t''
        :: (string, string, string, string, string, string, string, string) coral_loader))
     = LoadResolved (CoralUser_new 5 (\<lambda>k. 5) ''n'' ''d'' \<lparr>result = ''a1''\<rparr>
        \<lparr>result = \<lparr>Friends.friends = ''f1''\<rparr>\<rparr> \<lparr>result = ''w1''\<rparr> \<lparr>result = ''v1''\<rparr>)"
    by (rule t5) simp
  have 2: "phase (loader_run
      (TokenResolved ''n'' ''d'' #
       map RequestResolved [WebServicesResponse \<lparr>result = ''w1''\<rparr>] @
       RequestRejected friends_key ''E'' # [RequestResolved (AnnouncementsResponse \<lparr>result = ''a1''\<rparr>)])
      (coral_loader_start ''storage'' None ''t''
        :: (string, string, string, string, string, string, string, string) coral_loader))
     = LoadRejected ''E''"
    by (rule t7) simp
  show ?thesis using 1 2 by (rule conjI)
qed

end
